theory Spec2Isabelle
  imports Complex_Main "HOL-Library.Multiset"
begin

section \<open>JavaScript primitives used by the puzzle engine\<close>

text \<open>
  The source is TypeScript; every \<open>number\<close> that the puzzle engine handles is an integer
  valued double. All intermediate values of the generator stay below \<open>2^53\<close> as long as
  the seed lies between \<open>-2^32\<close> and \<open>2^32\<close>, so the doubles are exact there and are
  modelled by \<open>int\<close>. A grid cell is an \<open>int option\<close>: \<open>None\<close> is JavaScript's
  \<open>undefined\<close>, which the source tests for explicitly.
  The grid side \<open>size\<close> is never 0 in the program (it is 3, 4 or 5). At size 0 the source
  divides by zero and continues with \<open>Infinity\<close> and \<open>NaN\<close>; the definitions below are
  meant for \<open>size \<noteq> 0\<close> only, and every theorem is about such sizes.
\<close>

text \<open>The remainder operator \<open>%\<close>: the result takes the sign of the dividend.\<close>

definition js_rem :: "int \<Rightarrow> int \<Rightarrow> int" where
  "js_rem a b = sgn a * (\<bar>a\<bar> mod \<bar>b\<bar>)"

text \<open>Reading \<open>xs[i]\<close>: out of range gives \<open>undefined\<close>.\<close>

definition js_index :: "int option list \<Rightarrow> int \<Rightarrow> int option" where
  "js_index xs i = (if 0 \<le> i \<and> i < int (length xs) then xs ! nat i else None)"

text \<open>
  Writing \<open>xs[i] = v\<close> on the elements of an array: inside the range the cell is
  replaced, at or beyond the length the array grows (the cells in between read as
  \<open>undefined\<close>), and below 0 no element changes.
\<close>

definition js_update :: "int option list \<Rightarrow> int \<Rightarrow> int option \<Rightarrow> int option list" where
  "js_update xs i v =
     (if 0 \<le> i \<and> i < int (length xs) then xs[nat i := v]
      else if int (length xs) \<le> i then xs @ replicate (nat i - length xs) None @ [v]
      else xs)"

text \<open>\<open>Array.prototype.indexOf\<close>: the first position holding the number, or \<open>-1\<close>.\<close>

fun indexOf :: "int option list \<Rightarrow> int \<Rightarrow> int" where
  "indexOf [] v = -1"
| "indexOf (x # xs) v =
     (if x = Some v then 0
      else (let r = indexOf xs v in if r = -1 then -1 else r + 1))"

section \<open>Seeded generator and Fisher-Yates shuffle (puzzle.ts)\<close>

text \<open>
  \<open>createSeededRandom\<close>: the closure's only state is \<open>currentSeed\<close>. One call of
  \<open>next\<close> maps it to \<open>(currentSeed * 1664525 + 1013904223) % 2 ** 32\<close> and returns that
  number divided by \<open>2 ** 32\<close>.
\<close>

definition rng_next :: "int \<Rightarrow> int" where
  "rng_next currentSeed = js_rem (currentSeed * 1664525 + 1013904223) (2 ^ 32)"

text \<open>
  The index drawn in the shuffle, \<open>Math.floor(rng.next() * (i + 1))\<close>, for the generator
  state \<open>c\<close> reached by that call of \<open>next\<close>.
\<close>

definition draw :: "int \<Rightarrow> int \<Rightarrow> int" where
  "draw c i = (c * (i + 1)) div 2 ^ 32"

text \<open>
  The array being shuffled is a JavaScript object: an index below 0 is an ordinary property
  key, kept here in \<open>extra\<close> (latest write first).
\<close>

record jsarray =
  elems :: "int option list"
  extra :: "(int \<times> int option) list"

definition arr_get :: "jsarray \<Rightarrow> int \<Rightarrow> int option" where
  "arr_get a k =
     (if k < 0 then (case map_of (extra a) k of None \<Rightarrow> None | Some v \<Rightarrow> v)
      else js_index (elems a) k)"

definition arr_set :: "jsarray \<Rightarrow> int \<Rightarrow> int option \<Rightarrow> jsarray" where
  "arr_set a k v =
     (if k < 0 then a\<lparr>extra := (k, v) # extra a\<rparr>
      else a\<lparr>elems := js_update (elems a) k v\<rparr>)"

text \<open>
  The loop \<open>for (let i = shuffled.length - 1; i > 0; i--)\<close>: \<open>shuffle_from n\<close> runs the
  body for \<open>i = n, n - 1, \<dots>, 1\<close>, threading the array and the generator state.
\<close>

fun shuffle_from :: "nat \<Rightarrow> jsarray \<Rightarrow> int \<Rightarrow> jsarray \<times> int" where
  "shuffle_from 0 a c = (a, c)"
| "shuffle_from (Suc n) a c =
     (let c' = rng_next c;
          i = int (Suc n);
          j = draw c' i;
          temp = arr_get a i;
          a1 = arr_set a i (arr_get a j);
          a2 = arr_set a1 j temp
      in shuffle_from n a2 c')"

text \<open>
  \<open>seededShuffle\<close> copies its argument, shuffles the copy and returns it; the result here
  is the sequence of its elements (nothing downstream reads a property below index 0)
  together with the generator state left behind.
\<close>

definition seededShuffle :: "int option list \<Rightarrow> int \<Rightarrow> int option list \<times> int" where
  "seededShuffle array c =
     (let (a, c') = shuffle_from (length array - 1) \<lparr>elems = array, extra = []\<rparr> c
      in (elems a, c'))"

section \<open>Solvability predicate (puzzle.ts)\<close>

text \<open>
  \<open>countInversions\<close>: the outer loop visits the head, the inner loop the cells after it;
  \<open>undefined\<close> cells and the empty tile \<open>size * size - 1\<close> are skipped in both.
\<close>

definition counts_against :: "int \<Rightarrow> int \<Rightarrow> int option \<Rightarrow> bool" where
  "counts_against sz valI y =
     (case y of None \<Rightarrow> False | Some valJ \<Rightarrow> valJ \<noteq> sz * sz - 1 \<and> valI > valJ)"

fun countInversions :: "int option list \<Rightarrow> int \<Rightarrow> int" where
  "countInversions [] sz = 0"
| "countInversions (x # xs) sz =
     (case x of
        None \<Rightarrow> 0
      | Some valI \<Rightarrow>
          if valI = sz * sz - 1 then 0
          else int (length (filter (counts_against sz valI) xs)))
     + countInversions xs sz"

definition getEmptyRow :: "int option list \<Rightarrow> int \<Rightarrow> int" where
  "getEmptyRow g sz = indexOf g (sz * sz - 1) div sz"

definition isSolvable :: "int option list \<Rightarrow> int \<Rightarrow> bool" where
  "isSolvable g sz =
     (let inversions = countInversions g sz;
          emptyRow = getEmptyRow g sz
      in if js_rem sz 2 = 1 then js_rem inversions 2 = 0
         else js_rem (inversions + emptyRow) 2 = 0)"

section \<open>Shuffle generation (puzzle.ts)\<close>

text \<open>The field \<open>size\<close> of the source is \<open>size_n\<close> here, and a parameter \<open>size\<close> is \<open>sz\<close>.\<close>

record PuzzleState =
  grid :: "int option list"
  emptyIndex :: int
  size_n :: int

text \<open>\<open>Array.from({ length: totalTiles }, (_, i) => i)\<close>.\<close>

definition solvedGrid :: "int \<Rightarrow> int option list" where
  "solvedGrid totalTiles = map (\<lambda>i. Some (int i)) [0..<nat totalTiles]"

text \<open>
  The fallback of the loop: a copy of the solved grid whose last two cells are exchanged
  when both reads are defined.
\<close>

definition fallbackGrid :: "int \<Rightarrow> int option list" where
  "fallbackGrid totalTiles =
     (let g = solvedGrid totalTiles;
          last = js_index g (totalTiles - 1);
          secondLast = js_index g (totalTiles - 2)
      in if last \<noteq> None \<and> secondLast \<noteq> None
         then js_update (js_update g (totalTiles - 1) secondLast) (totalTiles - 2) last
         else g)"

text \<open>
  The \<open>do \<dots> while\<close> loop. \<open>attempts\<close> is the counter before the iteration; the loop
  leaves through \<open>break\<close> once the incremented counter exceeds 100.
\<close>

function shuffle_loop :: "int \<Rightarrow> int \<Rightarrow> int \<Rightarrow> nat \<Rightarrow> int option list" where
  "shuffle_loop sz totalTiles c attempts =
     (let (g, c') = seededShuffle (solvedGrid totalTiles) c;
          attempts' = attempts + 1
      in if attempts' > 100 then fallbackGrid totalTiles
         else if \<not> isSolvable g sz then shuffle_loop sz totalTiles c' attempts'
         else g)"
  by pat_completeness auto
termination
  by (relation "measure (\<lambda>(sz, totalTiles, c, attempts). 101 - attempts)") auto

definition createShuffledPuzzle :: "int \<Rightarrow> int \<Rightarrow> PuzzleState" where
  "createShuffledPuzzle sz seed =
     (let totalTiles = sz * sz;
          g = shuffle_loop sz totalTiles seed 0
      in \<lparr>grid = g, emptyIndex = indexOf g (totalTiles - 1), size_n = sz\<rparr>)"

section \<open>Moves (puzzle.ts)\<close>

definition getAdjacentIndices :: "int \<Rightarrow> int \<Rightarrow> int list" where
  "getAdjacentIndices index sz =
     (let row = index div sz;
          col = js_rem index sz
      in (if row > 0 then [index - sz] else []) @
         (if row < sz - 1 then [index + sz] else []) @
         (if col > 0 then [index - 1] else []) @
         (if col < sz - 1 then [index + 1] else []))"

definition isValidMove :: "PuzzleState \<Rightarrow> int \<Rightarrow> bool" where
  "isValidMove puzzle tileIndex =
     (emptyIndex puzzle \<in> set (getAdjacentIndices tileIndex (size_n puzzle)))"

text \<open>\<open>makeMove\<close> on values: \<open>None\<close> is the \<open>null\<close> of the source.\<close>

definition makeMove :: "PuzzleState \<Rightarrow> int \<Rightarrow> PuzzleState option" where
  "makeMove puzzle tileIndex =
     (if \<not> isValidMove puzzle tileIndex then None
      else
        (let newGrid = grid puzzle;
             tileValue = js_index newGrid tileIndex;
             emptyValue = js_index newGrid (emptyIndex puzzle)
         in if tileValue = None \<or> emptyValue = None then None
            else
              (let newGrid1 = js_update newGrid tileIndex emptyValue;
                   newGrid2 = js_update newGrid1 (emptyIndex puzzle) tileValue
               in Some \<lparr>grid = newGrid2, emptyIndex = tileIndex, size_n = size_n puzzle\<rparr>)))"

definition isSolved :: "PuzzleState \<Rightarrow> bool" where
  "isSolved puzzle = list_all (\<lambda>(v, i). v = Some (int i)) (zip (grid puzzle) [0..<length (grid puzzle)])"

subsection \<open>The same function on a store of array objects\<close>

text \<open>
  In the source a state holds a reference to its grid array, and \<open>[...puzzle.grid]\<close>
  allocates a new array. The store lists the array objects by address; a fresh address is
  the length of the store.
\<close>

type_synonym heap = "int option list list"

record PuzzleObj =
  grid_ref :: nat
  emptyIndex_o :: int
  size_o :: int

definition deref :: "heap \<Rightarrow> PuzzleObj \<Rightarrow> PuzzleState" where
  "deref h p = \<lparr>grid = h ! grid_ref p, emptyIndex = emptyIndex_o p, size_n = size_o p\<rparr>"

definition makeMove_heap :: "heap \<Rightarrow> PuzzleObj \<Rightarrow> int \<Rightarrow> heap \<times> PuzzleObj option" where
  "makeMove_heap h puzzle tileIndex =
     (if \<not> isValidMove (deref h puzzle) tileIndex then (h, None)
      else
        (let newGrid = length h;
             h1 = h @ [h ! grid_ref puzzle];
             tileValue = js_index (h1 ! newGrid) tileIndex;
             emptyValue = js_index (h1 ! newGrid) (emptyIndex_o puzzle)
         in if tileValue = None \<or> emptyValue = None then (h1, None)
            else
              (let h2 = h1[newGrid := js_update (h1 ! newGrid) tileIndex emptyValue];
                   h3 = h2[newGrid := js_update (h2 ! newGrid) (emptyIndex_o puzzle) tileValue]
               in (h3, Some \<lparr>grid_ref = newGrid, emptyIndex_o = tileIndex,
                               size_o = size_o puzzle\<rparr>))))"

section \<open>Hint heuristic (client game script)\<close>

text \<open>The local \<open>validMoves\<close> of \<open>getNextMoveHint\<close>: up, down, left, right of the empty cell.\<close>

definition validMoves :: "PuzzleState \<Rightarrow> int list" where
  "validMoves puzzle =
     (let e = emptyIndex puzzle;
          sz = size_n puzzle;
          row = e div sz;
          col = js_rem e sz
      in (if row > 0 then [e - sz] else []) @
         (if row < sz - 1 then [e + sz] else []) @
         (if col > 0 then [e - 1] else []) @
         (if col < sz - 1 then [e + 1] else []))"

text \<open>
  The score of one candidate. Reading an \<open>undefined\<close> cell makes every distance \<open>NaN\<close>;
  the score is then \<open>None\<close>, and the comparison \<open>score > bestScore\<close> is false.
\<close>

definition hint_score :: "PuzzleState \<Rightarrow> int \<Rightarrow> int option" where
  "hint_score puzzle tileIndex =
     (case js_index (grid puzzle) tileIndex of
        None \<Rightarrow> None
      | Some tileValue \<Rightarrow>
          (let sz = size_n puzzle;
               targetIndex = tileValue;
               currentRow = tileIndex div sz;
               currentCol = js_rem tileIndex sz;
               targetRow = targetIndex div sz;
               targetCol = js_rem targetIndex sz;
               currentDist = \<bar>currentRow - targetRow\<bar> + \<bar>currentCol - targetCol\<bar>;
               newRow = emptyIndex puzzle div sz;
               newCol = js_rem (emptyIndex puzzle) sz;
               newDist = \<bar>newRow - targetRow\<bar> + \<bar>newCol - targetCol\<bar>
           in Some (currentDist - newDist)))"

text \<open>The loop over \<open>validMoves\<close>, threading \<open>bestTile\<close> and \<open>bestScore\<close>.\<close>

fun hint_loop :: "PuzzleState \<Rightarrow> int list \<Rightarrow> int option \<Rightarrow> int \<Rightarrow> int option" where
  "hint_loop puzzle [] bestTile bestScore = bestTile"
| "hint_loop puzzle (tileIndex # rest) bestTile bestScore =
     (case hint_score puzzle tileIndex of
        None \<Rightarrow> hint_loop puzzle rest bestTile bestScore
      | Some score \<Rightarrow>
          if score > bestScore then hint_loop puzzle rest (Some tileIndex) score
          else hint_loop puzzle rest bestTile bestScore)"

definition getNextMoveHint :: "PuzzleState \<Rightarrow> int option" where
  "getNextMoveHint puzzle = hint_loop puzzle (validMoves puzzle) None (- 1)"

section \<open>Leaderboard (server API routes)\<close>

record LeaderboardEntry =
  username :: string
  time :: int
  moves :: int
  difficulty :: int
  date :: string

text \<open>
  The JSON body of a submission. A field is \<open>None\<close> when it is missing; numbers are
  integers. \<open>falsy\<close> is the test \<open>!x\<close> on such a field.
\<close>

record SubmitScoreRequest =
  time_r :: "int option"
  moves_r :: "int option"
  difficulty_r :: "int option"

definition falsy :: "int option \<Rightarrow> bool" where
  "falsy v = (v = None \<or> v = Some 0)"

datatype SubmitScoreResult =
    SubmitScoreResponse int string
  | SubmitScoreErrorResponse nat string

datatype LeaderboardResult =
    LeaderboardResponse "LeaderboardEntry list" string int
  | LeaderboardErrorResponse nat string

text \<open>
  The key-value store holds one table for each key \<open>leaderboard:<date>:<difficulty>\<close>; the
  key is the pair of its two variable parts and the value the table that \<open>JSON.parse\<close>
  gives back.
\<close>

type_synonym store = "string \<times> int \<Rightarrow> LeaderboardEntry list option"

text \<open>\<open>Array.prototype.findIndex\<close>: the first position satisfying the test, or \<open>-1\<close>.\<close>

fun findIndex :: "('a \<Rightarrow> bool) \<Rightarrow> 'a list \<Rightarrow> int" where
  "findIndex P [] = - 1"
| "findIndex P (x # xs) =
     (if P x then 0
      else (let r = findIndex P xs in if r = - 1 then - 1 else r + 1))"

text \<open>
  The test \<open>a.time < b.time || (a.time === b.time && a.moves < b.moves)\<close>, which the handler
  applies to the submission and to the entries of the table.
\<close>

definition better :: "LeaderboardEntry \<Rightarrow> LeaderboardEntry \<Rightarrow> bool" where
  "better a b = (time a < time b \<or> (time a = time b \<and> moves a < moves b))"

text \<open>The comparator handed to \<open>sort\<close>.\<close>

definition compare_entries :: "LeaderboardEntry \<Rightarrow> LeaderboardEntry \<Rightarrow> int" where
  "compare_entries a b = (if time a \<noteq> time b then time a - time b else moves a - moves b)"

text \<open>
  \<open>Array.prototype.sort\<close> is stable, so for this comparator its result is the one
  arrangement that is ascending and keeps entries that compare equal in their order; that
  arrangement is computed here by insertion from the right.
\<close>

fun insert_entry :: "LeaderboardEntry \<Rightarrow> LeaderboardEntry list \<Rightarrow> LeaderboardEntry list" where
  "insert_entry x [] = [x]"
| "insert_entry x (y # ys) =
     (if compare_entries x y \<le> 0 then x # y # ys else y # insert_entry x ys)"

definition sort_entries :: "LeaderboardEntry list \<Rightarrow> LeaderboardEntry list" where
  "sort_entries xs = foldr insert_entry xs []"

datatype outcome = Retained | Submitted

text \<open>The end of the handler: sort, keep the first 100, look the user up.\<close>

definition sort_and_rank ::
    "LeaderboardEntry list \<Rightarrow> string \<Rightarrow> LeaderboardEntry list \<times> int \<times> outcome" where
  "sort_and_rank leaderboard user =
     (let leaderboard' = take 100 (sort_entries leaderboard);
          rank = findIndex (\<lambda>e. username e = user) leaderboard' + 1
      in (leaderboard', rank, Submitted))"

text \<open>
  The part of the \<open>/submit-score\<close> handler between reading the table and answering: the
  table to keep, the rank reported and which of the two answers is given. The branch for a
  found index without an entry cannot be taken on a list of entries and is left out.
\<close>

definition submit ::
    "LeaderboardEntry list \<Rightarrow> LeaderboardEntry \<Rightarrow> LeaderboardEntry list \<times> int \<times> outcome" where
  "submit leaderboard entry =
     (let existingIndex = findIndex (\<lambda>e. username e = username entry) leaderboard
      in if existingIndex \<ge> 0 then
           (let existing = leaderboard ! nat existingIndex
            in if better entry existing
               then sort_and_rank (leaderboard[nat existingIndex := entry]) (username entry)
               else (leaderboard,
                     int (length (filter (\<lambda>e. better e existing) leaderboard)) + 1,
                     Retained))
         else sort_and_rank (leaderboard @ [entry]) (username entry))"

text \<open>
  The \<open>/submit-score\<close> handler, given the user name the platform reports and today's date.
  The table is written back only on the path that sorts.
\<close>

definition submit_score ::
    "store \<Rightarrow> string option \<Rightarrow> string \<Rightarrow> SubmitScoreRequest \<Rightarrow> store \<times> SubmitScoreResult" where
  "submit_score redis currentUsername today body =
     (if falsy (time_r body) \<or> falsy (moves_r body) \<or> falsy (difficulty_r body)
      then (redis, SubmitScoreErrorResponse 400
                     ''Missing required fields: time, moves, difficulty'')
      else
        (case currentUsername of
           None \<Rightarrow> (redis, SubmitScoreErrorResponse 401 ''Unable to get username'')
         | Some user \<Rightarrow>
             if user = [] then (redis, SubmitScoreErrorResponse 401 ''Unable to get username'')
             else
               (let entry = \<lparr>username = user, time = the (time_r body),
                              moves = the (moves_r body),
                              difficulty = the (difficulty_r body), date = today\<rparr>;
                    leaderboardKey = (today, the (difficulty_r body));
                    leaderboard = (case redis leaderboardKey of None \<Rightarrow> [] | Some t \<Rightarrow> t)
                in (case submit leaderboard entry of
                      (leaderboard', rank, Retained) \<Rightarrow>
                        (redis, SubmitScoreResponse rank ''Your existing score is better'')
                    | (leaderboard', rank, Submitted) \<Rightarrow>
                        (redis(leaderboardKey \<mapsto> leaderboard'),
                         SubmitScoreResponse rank ''Score submitted successfully'')))))"

text \<open>
  The \<open>/leaderboard\<close> handler. \<open>parseInt\<close> stands for \<open>Number.parseInt\<close> (\<open>None\<close> is
  \<open>NaN\<close>); a missing or empty query parameter is \<open>None\<close> or the empty string.
\<close>

definition get_leaderboard ::
    "(string \<Rightarrow> int option) \<Rightarrow> store \<Rightarrow> string \<Rightarrow> string option \<Rightarrow> string option
       \<Rightarrow> LeaderboardResult" where
  "get_leaderboard parseInt redis today dateQuery difficultyQuery =
     (let date_d = (case dateQuery of None \<Rightarrow> today | Some d \<Rightarrow> if d = [] then today else d);
          difficultyStr = (case difficultyQuery of None \<Rightarrow> ''3''
                           | Some d \<Rightarrow> if d = [] then ''3'' else d);
          difficulty_d = parseInt difficultyStr
      in if difficulty_d \<noteq> Some 3 \<and> difficulty_d \<noteq> Some 4 \<and> difficulty_d \<noteq> Some 5
         then LeaderboardErrorResponse 400 ''Invalid difficulty. Must be 3, 4, or 5''
         else
           (let leaderboardKey = (date_d, the difficulty_d);
                leaderboard = (case redis leaderboardKey of None \<Rightarrow> [] | Some t \<Rightarrow> t)
            in LeaderboardResponse leaderboard date_d (the difficulty_d)))"

section \<open>Notions of the specification\<close>

text \<open>A board is a permutation of \<open>0..n - 1\<close>.\<close>

definition permutation_of_range :: "int option list \<Rightarrow> nat \<Rightarrow> bool" where
  "permutation_of_range g n = (mset g = mset (map (\<lambda>i. Some (int i)) [0..<n]))"

text \<open>
  The PuzzleState invariant: the board is a permutation of \<open>0..N\<^sup>2 - 1\<close> and the cell at
  \<open>emptyIndex\<close> holds \<open>N\<^sup>2 - 1\<close>.
\<close>

definition invariant :: "PuzzleState \<Rightarrow> bool" where
  "invariant st =
     (permutation_of_range (grid st) (nat (size_n st * size_n st)) \<and>
      js_index (grid st) (emptyIndex st) = Some (size_n st * size_n st - 1))"

text \<open>
  Orthogonal adjacency of two cells of the \<open>sz \<times> sz\<close> grid, by rows and columns, without
  wrap-around.
\<close>

definition adjacent :: "int \<Rightarrow> int \<Rightarrow> int \<Rightarrow> bool" where
  "adjacent sz a b =
     (0 \<le> a \<and> a < sz * sz \<and> 0 \<le> b \<and> b < sz * sz \<and>
      ((a div sz = b div sz \<and> \<bar>a mod sz - b mod sz\<bar> = 1) \<or>
       (a mod sz = b mod sz \<and> \<bar>a div sz - b div sz\<bar> = 1)))"

text \<open>Manhattan distance between two cells of the \<open>sz \<times> sz\<close> grid.\<close>

definition manhattan :: "int \<Rightarrow> int \<Rightarrow> int \<Rightarrow> int" where
  "manhattan sz a b = \<bar>a div sz - b div sz\<bar> + \<bar>a mod sz - b mod sz\<bar>"

text \<open>
  The order of the leaderboard: \<open>(time, moves)\<close> pairs compared lexicographically, time
  first.
\<close>

definition lex_less :: "int \<times> int \<Rightarrow> int \<times> int \<Rightarrow> bool" where
  "lex_less p q = (fst p < fst q \<or> (fst p = fst q \<and> snd p < snd q))"

definition time_moves :: "LeaderboardEntry \<Rightarrow> int \<times> int" where
  "time_moves e = (time e, moves e)"

text \<open>A table in ascending order: no entry is followed by a strictly smaller one.\<close>

definition ascending :: "LeaderboardEntry list \<Rightarrow> bool" where
  "ascending xs = sorted_wrt (\<lambda>a b. \<not> lex_less (time_moves b) (time_moves a)) xs"

text \<open>
  The table that a submission gives rise to before sorting: the submission put in the place
  of the user's entry, or appended when the user has none.
\<close>

definition inserted :: "LeaderboardEntry list \<Rightarrow> LeaderboardEntry \<Rightarrow> LeaderboardEntry list" where
  "inserted leaderboard entry =
     (let i = findIndex (\<lambda>e. username e = username entry) leaderboard
      in if i \<ge> 0 then leaderboard[nat i := entry] else leaderboard @ [entry])"


section \<open>A table of one hundred entries\<close>

text \<open>
  One hundred entries with the user names \<open>aa\<close>, \<open>ab\<close>, \<dots>, \<open>jj\<close>, the times
  \<open>0, 1, \<dots>, 99\<close> and 5 moves each, for evaluating the handler on a full table.
\<close>

fun timed_from :: "int \<Rightarrow> string list \<Rightarrow> LeaderboardEntry list" where
  "timed_from t [] = []"
| "timed_from t (u # us) =
     \<lparr>username = u, time = t, moves = 5, difficulty = 3, date = ''2026-11-02''\<rparr>
       # timed_from (t + 1) us"

definition sample_table :: "LeaderboardEntry list" where
  "sample_table =
     timed_from 0 (concat (map (\<lambda>a. map (\<lambda>b. [a, b]) ''abcdefghij'') ''abcdefghij''))"

section \<open>The generator and the shuffle on a non-negative state\<close>

lemma js_rem_nonneg: "0 \<le> a \<Longrightarrow> 0 < b \<Longrightarrow> js_rem a b = a mod b"
  by (cases "a = 0") (simp_all add: js_rem_def)

lemma rng_next_range: "0 \<le> c \<Longrightarrow> 0 \<le> rng_next c \<and> rng_next c < 2 ^ 32"
proof -
  assume "0 \<le> c"
  then have "0 \<le> c * 1664525 + 1013904223" by simp
  then have "rng_next c = (c * 1664525 + 1013904223) mod 2 ^ 32"
    unfolding rng_next_def by (rule js_rem_nonneg) simp
  then show ?thesis by simp
qed

text \<open>
  The drawn index as the source computes it, on the quotient \<open>c / 2 ** 32\<close>, is the integer
  quotient used in \<open>draw\<close>.
\<close>

lemma draw_as_floor: "draw c i = \<lfloor>(real_of_int c / 2 ^ 32) * real_of_int (i + 1)\<rfloor>"
proof -
  have "(real_of_int c / 2 ^ 32) * real_of_int (i + 1)
        = real_of_int (c * (i + 1)) / real_of_int (2 ^ 32)" by simp
  then show ?thesis unfolding draw_def by (simp only: floor_divide_of_int_eq)
qed

lemma div_pow32_less: "(a::int) < 2 ^ 32 * k \<Longrightarrow> a div 2 ^ 32 < k"
  by simp

lemma draw_range:
  assumes "0 \<le> c" "c < 2 ^ 32" "0 \<le> i"
  shows "0 \<le> draw c i \<and> draw c i \<le> i"
proof -
  have "0 \<le> c * (i + 1)" using assms by simp
  then have lo: "0 \<le> draw c i" unfolding draw_def by (simp add: pos_imp_zdiv_nonneg_iff)
  have "c * (i + 1) < 2 ^ 32 * (i + 1)"
    using assms mult_strict_right_mono[of c "2 ^ 32" "i + 1"] by linarith
  then have "draw c i < i + 1" unfolding draw_def by (rule div_pow32_less)
  with lo show ?thesis by simp
qed

text \<open>With both indices inside the array, the three assignments of the loop body are a swap.\<close>

lemma swap_in_range:
  assumes "i < length (elems a)" "j < length (elems a)"
  shows "arr_set (arr_set a (int i) (arr_get a (int j))) (int j) (arr_get a (int i))
         = a\<lparr>elems := (elems a)[i := elems a ! j, j := elems a ! i]\<rparr>"
  using assms by (simp add: arr_set_def arr_get_def js_update_def js_index_def)

lemma shuffle_from_perm:
  "0 \<le> c \<Longrightarrow> n < length (elems a) \<or> n = 0 \<Longrightarrow> shuffle_from n a c = (a', c') \<Longrightarrow>
     mset (elems a') = mset (elems a) \<and> extra a' = extra a \<and> 0 \<le> c'"
proof (induction n arbitrary: a c)
  case 0
  then show ?case by simp
next
  case (Suc n)
  define d where "d = rng_next c"
  have d: "0 \<le> d" "d < 2 ^ 32" using rng_next_range[OF Suc.prems(1)] by (simp_all add: d_def)
  define j where "j = nat (draw d (int (Suc n)))"
  have jr: "0 \<le> draw d (int (Suc n))" "draw d (int (Suc n)) \<le> int (Suc n)"
    using draw_range[OF d, of "int (Suc n)"] by simp_all
  then have j: "int j = draw d (int (Suc n))" "j \<le> Suc n" by (simp_all add: j_def)
  have len: "Suc n < length (elems a)" using Suc.prems(2) by simp
  then have jl: "j < length (elems a)" using j by simp
  define b where "b = a\<lparr>elems := (elems a)[Suc n := elems a ! j, j := elems a ! Suc n]\<rparr>"
  have "shuffle_from (Suc n) a c =
      shuffle_from n (arr_set (arr_set a (int (Suc n)) (arr_get a (int j))) (int j)
                        (arr_get a (int (Suc n)))) d"
    unfolding shuffle_from.simps Let_def d_def j(1) ..
  then have step: "shuffle_from (Suc n) a c = shuffle_from n b d"
    unfolding swap_in_range[OF len jl] b_def .
  have "mset (elems b) = mset (elems a)" using len jl by (simp add: b_def mset_swap)
  moreover have "extra b = extra a" "length (elems b) = length (elems a)"
    by (simp_all add: b_def)
  moreover have "shuffle_from n b d = (a', c')" using step Suc.prems(3) by simp
  moreover have "n < length (elems b) \<or> n = 0" using len by (simp add: b_def)
  ultimately show ?case using Suc.IH[OF d(1), of b] by simp
qed

lemma seededShuffle_perm:
  assumes "0 \<le> c" "seededShuffle xs c = (ys, c')"
  shows "mset ys = mset xs \<and> 0 \<le> c'"
proof -
  obtain a where a: "shuffle_from (length xs - 1) \<lparr>elems = xs, extra = []\<rparr> c = (a, c')"
      "ys = elems a"
    using assms(2) by (auto simp: seededShuffle_def split: prod.splits)
  have "length xs - 1 < length (elems \<lparr>elems = xs, extra = []\<rparr>) \<or> length xs - 1 = 0"
    by (cases xs) simp_all
  from shuffle_from_perm[OF assms(1) this a(1)] a(2) show ?thesis by simp
qed

lemma mset_fallbackGrid: "mset (fallbackGrid t) = mset (solvedGrid t)"
proof (cases "js_index (solvedGrid t) (t - 1) \<noteq> None \<and> js_index (solvedGrid t) (t - 2) \<noteq> None")
  case False
  then show ?thesis by (auto simp: fallbackGrid_def Let_def)
next
  case True
  then have r: "nat (t - 1) < length (solvedGrid t)" "nat (t - 2) < length (solvedGrid t)"
    by (auto simp: js_index_def split: if_splits)
  have "fallbackGrid t = (solvedGrid t)[nat (t - 1) := solvedGrid t ! nat (t - 2),
                                        nat (t - 2) := solvedGrid t ! nat (t - 1)]"
    using True by (auto simp: fallbackGrid_def Let_def js_index_def js_update_def split: if_splits)
  then show ?thesis using r by (simp add: mset_swap)
qed

text \<open>
  The loop returns a rearrangement of the solved grid, and what it returns either passed
  \<open>isSolvable\<close> or is the fallback grid.
\<close>

lemma shuffle_loop_result:
  "0 \<le> c \<Longrightarrow> mset (shuffle_loop sz t c k) = mset (solvedGrid t) \<and>
     (isSolvable (shuffle_loop sz t c k) sz \<or> shuffle_loop sz t c k = fallbackGrid t)"
proof (induction sz t c k rule: shuffle_loop.induct)
  case (1 sz t c k)
  obtain g c' where g: "seededShuffle (solvedGrid t) c = (g, c')"
    by (cases "seededShuffle (solvedGrid t) c")
  from seededShuffle_perm[OF "1.prems" g] have p: "mset g = mset (solvedGrid t)" "0 \<le> c'"
    by simp_all
  show ?case
  proof (cases "k + 1 > 100")
    case True
    then have "shuffle_loop sz t c k = fallbackGrid t" using g by (simp add: Let_def)
    then show ?thesis by (simp add: mset_fallbackGrid)
  next
    case False
    show ?thesis
    proof (cases "isSolvable g sz")
      case True
      then have "shuffle_loop sz t c k = g" using g False by (simp add: Let_def)
      then show ?thesis using p True by simp
    next
      case ns: False
      then have "shuffle_loop sz t c k = shuffle_loop sz t c' (k + 1)"
        using g False by (simp add: Let_def)
      moreover have "mset (shuffle_loop sz t c' (k + 1)) = mset (solvedGrid t) \<and>
          (isSolvable (shuffle_loop sz t c' (k + 1)) sz \<or>
           shuffle_loop sz t c' (k + 1) = fallbackGrid t)"
        using "1.IH"[OF refl g[symmetric] refl _ ns p(2)] False by simp
      ultimately show ?thesis by simp
    qed
  qed
qed

lemma createShuffledPuzzle_permutation:
  assumes "0 \<le> seed"
  shows "permutation_of_range (grid (createShuffledPuzzle sz seed)) (nat (sz * sz))"
  using shuffle_loop_result[OF assms, of sz "sz * sz" 0]
  by (simp add: createShuffledPuzzle_def Let_def permutation_of_range_def solvedGrid_def)

lemma indexOf_found: "Some v \<in> set xs \<Longrightarrow> js_index xs (indexOf xs v) = Some v"
proof (induction xs)
  case Nil
  then show ?case by simp
next
  case (Cons x xs)
  show ?case
  proof (cases "x = Some v")
    case True
    then show ?thesis by (simp add: js_index_def)
  next
    case False
    with Cons.prems have "Some v \<in> set xs" by simp
    from Cons.IH[OF this] have ih: "js_index xs (indexOf xs v) = Some v" .
    then have r: "0 \<le> indexOf xs v" "indexOf xs v < int (length xs)"
      by (auto simp: js_index_def split: if_splits)
    then have "nat (indexOf xs v + 1) = Suc (nat (indexOf xs v))" by simp
    then show ?thesis using False ih r by (simp add: js_index_def Let_def)
  qed
qed

lemma permutation_no_undefined: "permutation_of_range g n \<Longrightarrow> None \<notin> set g"
proof -
  assume "permutation_of_range g n"
  then have "set_mset (mset g) = set_mset (mset (map (\<lambda>i. Some (int i)) [0..<n]))"
    unfolding permutation_of_range_def by simp
  then show "None \<notin> set g" by auto
qed

section \<open>Rows, columns and neighbours\<close>

lemma row_col_unique:
  assumes "0 < (sz::int)" "0 \<le> c" "c < sz"
  shows "(sz * q + c) div sz = q" "(sz * q + c) mod sz = c"
  using assms by (simp_all add: div_pos_pos_trivial mod_pos_pos_trivial)

lemma in_grid_iff_row:
  assumes "0 < (sz::int)"
  shows "(0 \<le> t \<and> t < sz * sz) \<longleftrightarrow> (0 \<le> t div sz \<and> t div sz < sz)"
proof -
  have t: "t = sz * (t div sz) + t mod sz" by simp
  have m: "0 \<le> t mod sz" "t mod sz < sz" using assms by simp_all
  have "t < sz * sz \<longleftrightarrow> t div sz < sz"
  proof
    assume "t < sz * sz"
    show "t div sz < sz"
    proof (rule ccontr)
      assume "\<not> t div sz < sz"
      then have "sz * sz \<le> sz * (t div sz)" using assms by (simp add: mult_left_mono)
      with t m \<open>t < sz * sz\<close> show False by linarith
    qed
  next
    assume "t div sz < sz"
    then have "sz * (t div sz) \<le> sz * (sz - 1)" using assms by (simp add: mult_left_mono)
    then have "sz * (t div sz) \<le> sz * sz - sz" by (simp add: right_diff_distrib)
    with t m show "t < sz * sz" by linarith
  qed
  moreover have "0 \<le> t \<longleftrightarrow> 0 \<le> t div sz" using assms by (simp add: pos_imp_zdiv_nonneg_iff)
  ultimately show ?thesis by simp
qed

lemma shift_row:
  assumes "0 < (sz::int)"
  shows "(t - sz) div sz = t div sz - 1" "(t - sz) mod sz = t mod sz"
        "(t + sz) div sz = t div sz + 1" "(t + sz) mod sz = t mod sz"
  using assms div_mult_self2[of sz t "- 1"] mod_mult_self2[of t sz "- 1"] by simp_all

lemma step_right:
  assumes "0 < (sz::int)" "t mod sz < sz - 1"
  shows "(t + 1) div sz = t div sz" "(t + 1) mod sz = t mod sz + 1"
proof -
  have t: "t + 1 = sz * (t div sz) + (t mod sz + 1)" by simp
  have m: "0 \<le> t mod sz + 1" "t mod sz + 1 < sz" using assms by simp_all
  show "(t + 1) div sz = t div sz" by (subst t) (rule row_col_unique(1)[OF assms(1) m])
  show "(t + 1) mod sz = t mod sz + 1" by (subst t) (rule row_col_unique(2)[OF assms(1) m])
qed

lemma step_left:
  assumes "0 < (sz::int)" "0 < t mod sz"
  shows "(t - 1) div sz = t div sz" "(t - 1) mod sz = t mod sz - 1"
proof -
  have t: "t - 1 = sz * (t div sz) + (t mod sz - 1)" by simp
  have "t mod sz < sz" using assms(1) by simp
  then have m: "0 \<le> t mod sz - 1" "t mod sz - 1 < sz" using assms(2) by linarith+
  show "(t - 1) div sz = t div sz" by (subst t) (rule row_col_unique(1)[OF assms(1) m])
  show "(t - 1) mod sz = t mod sz - 1" by (subst t) (rule row_col_unique(2)[OF assms(1) m])
qed

text \<open>For an index inside the grid, \<open>getAdjacentIndices\<close> lists exactly its orthogonal neighbours.\<close>

lemma getAdjacentIndices_mem:
  assumes "0 < sz" "0 \<le> t" "t < sz * sz"
  shows "e \<in> set (getAdjacentIndices t sz) \<longleftrightarrow>
     (e = t - sz \<and> 0 < t div sz) \<or> (e = t + sz \<and> t div sz < sz - 1) \<or>
     (e = t - 1 \<and> 0 < t mod sz) \<or> (e = t + 1 \<and> t mod sz < sz - 1)"
  using assms by (auto simp: getAdjacentIndices_def Let_def js_rem_nonneg)

lemma getAdjacentIndices_adjacent:
  assumes sz: "0 < sz" and t: "0 \<le> t" "t < sz * sz"
  shows "e \<in> set (getAdjacentIndices t sz) \<longleftrightarrow> adjacent sz t e"
proof
  assume "e \<in> set (getAdjacentIndices t sz)"
  then consider (up) "e = t - sz" "0 < t div sz" | (down) "e = t + sz" "t div sz < sz - 1"
    | (left) "e = t - 1" "0 < t mod sz" | (right) "e = t + 1" "t mod sz < sz - 1"
    using getAdjacentIndices_mem[OF assms] by blast
  then have "(e div sz = t div sz \<and> \<bar>t mod sz - e mod sz\<bar> = 1 \<or>
             e mod sz = t mod sz \<and> \<bar>t div sz - e div sz\<bar> = 1) \<and> 0 \<le> e div sz \<and> e div sz < sz"
  proof cases
    case up
    then show ?thesis using shift_row(1,2)[OF sz, of t] in_grid_iff_row[OF sz, of t] t by simp
  next
    case down
    then show ?thesis using shift_row(3,4)[OF sz, of t] in_grid_iff_row[OF sz, of t] t by simp
  next
    case left
    then show ?thesis using step_left[OF sz, of t] in_grid_iff_row[OF sz, of t] t by simp
  next
    case right
    then show ?thesis using step_right[OF sz, of t] in_grid_iff_row[OF sz, of t] t by simp
  qed
  then show "adjacent sz t e"
    unfolding adjacent_def using in_grid_iff_row[OF sz, of e] t by auto
next
  assume a: "adjacent sz t e"
  then have e: "0 \<le> e" "e < sz * sz" by (simp_all add: adjacent_def)
  have dt: "t = sz * (t div sz) + t mod sz" and de: "e = sz * (e div sz) + e mod sz" by simp_all
  have re: "0 \<le> e div sz" "e div sz < sz" using in_grid_iff_row[OF sz, of e] e by simp_all
  have ce: "0 \<le> e mod sz" "e mod sz < sz" using sz by simp_all
  have ct: "0 \<le> t mod sz" "t mod sz < sz" using sz by simp_all
  from a consider (row) "t div sz = e div sz" "\<bar>t mod sz - e mod sz\<bar> = 1"
    | (col) "t mod sz = e mod sz" "\<bar>t div sz - e div sz\<bar> = 1"
    by (auto simp: adjacent_def)
  then have "(e = t - sz \<and> 0 < t div sz) \<or> (e = t + sz \<and> t div sz < sz - 1) \<or>
     (e = t - 1 \<and> 0 < t mod sz) \<or> (e = t + 1 \<and> t mod sz < sz - 1)"
  proof cases
    case row
    have et: "sz * (t div sz) + e mod sz = e" using row(1) by simp
    have tt: "sz * (t div sz) + t mod sz = t" by simp
    from row(2) consider "e mod sz = t mod sz - 1" | "e mod sz = t mod sz + 1" by linarith
    then show ?thesis
    proof cases
      case 1
      then have "e = t - 1" using et tt by linarith
      moreover have "0 < t mod sz" using 1 ce by linarith
      ultimately show ?thesis by simp
    next
      case 2
      then have "e = t + 1" using et tt by linarith
      moreover have "t mod sz < sz - 1" using 2 ce by linarith
      ultimately show ?thesis by simp
    qed
  next
    case col
    have tt: "sz * (t div sz) + t mod sz = t" by simp
    from col(2) consider "e div sz = t div sz - 1" | "e div sz = t div sz + 1" by linarith
    then show ?thesis
    proof cases
      case 1
      have "sz * (t div sz - 1) + t mod sz = e" using 1 col(1) mult_div_mod_eq[of sz e] by simp
      then have "sz * (t div sz) - sz + t mod sz = e" by (simp add: right_diff_distrib)
      then have "e = t - sz" using tt by linarith
      moreover have "0 < t div sz" using 1 re by linarith
      ultimately show ?thesis by simp
    next
      case 2
      have "sz * (t div sz + 1) + t mod sz = e" using 2 col(1) mult_div_mod_eq[of sz e] by simp
      then have "sz * (t div sz) + sz + t mod sz = e" by (simp add: distrib_left)
      then have "e = t + sz" using tt by linarith
      moreover have "t div sz < sz - 1" using 2 re by linarith
      ultimately show ?thesis by simp
    qed
  qed
  then show "e \<in> set (getAdjacentIndices t sz)" using getAdjacentIndices_mem[OF assms] by blast
qed

section \<open>Moves: effect of \<open>makeMove\<close>\<close>

lemma adjacent_sym: "adjacent sz a b \<longleftrightarrow> adjacent sz b a"
  unfolding adjacent_def by (auto simp: abs_minus_commute)

lemma adjacent_neq: "adjacent sz a b \<Longrightarrow> a \<noteq> b"
  unfolding adjacent_def by auto

lemma makeMove_SomeD:
  assumes "makeMove st t = Some st'"
  shows "isValidMove st t \<and> 0 \<le> t \<and> t < int (length (grid st)) \<and>
         0 \<le> emptyIndex st \<and> emptyIndex st < int (length (grid st)) \<and>
         grid st ! nat t \<noteq> None \<and> grid st ! nat (emptyIndex st) \<noteq> None \<and>
         st' = \<lparr>grid = (grid st)[nat t := grid st ! nat (emptyIndex st),
                                  nat (emptyIndex st) := grid st ! nat t],
                emptyIndex = t, size_n = size_n st\<rparr>"
  using assms
  by (auto simp: makeMove_def Let_def js_index_def js_update_def split: if_splits)

lemma makeMove_SomeI:
  assumes "isValidMove st t" "0 \<le> t" "t < int (length (grid st))"
     "0 \<le> emptyIndex st" "emptyIndex st < int (length (grid st))"
     "grid st ! nat t \<noteq> None" "grid st ! nat (emptyIndex st) \<noteq> None"
  shows "makeMove st t = Some \<lparr>grid = (grid st)[nat t := grid st ! nat (emptyIndex st),
                                  nat (emptyIndex st) := grid st ! nat t],
                emptyIndex = t, size_n = size_n st\<rparr>"
  using assms by (auto simp: makeMove_def Let_def js_index_def js_update_def)

lemma permutation_length: "permutation_of_range g n \<Longrightarrow> length g = n"
proof -
  assume "permutation_of_range g n"
  then have "size (mset g) = size (mset (map (\<lambda>i. Some (int i)) [0..<n]))"
    unfolding permutation_of_range_def by simp
  then show ?thesis by simp
qed

lemma makeMove_invariant:
  assumes inv: "invariant st" and mv: "makeMove st t = Some st'"
  shows "invariant st'"
proof -
  let ?g = "grid st" and ?e = "nat (emptyIndex st)" and ?t = "nat t"
  note d = makeMove_SomeD[OF mv]
  have r: "?t < length ?g" "?e < length ?g" "0 \<le> t" "0 \<le> emptyIndex st"
    using d by linarith+
  have st': "st' = \<lparr>grid = ?g[?t := ?g ! ?e, ?e := ?g ! ?t], emptyIndex = t, size_n = size_n st\<rparr>"
    using d by blast
  have ev: "?g ! ?e = Some (size_n st * size_n st - 1)"
    using inv by (auto simp: invariant_def js_index_def split: if_splits)
  have "mset (grid st') = mset ?g" using r by (simp add: st' mset_swap)
  then have p: "permutation_of_range (grid st') (nat (size_n st' * size_n st'))"
    using inv by (simp add: invariant_def permutation_of_range_def st')
  have "(?g[?t := ?g ! ?e, ?e := ?g ! ?t]) ! ?t = ?g ! ?e"
    using r by (cases "?t = ?e") simp_all
  moreover have "t < int (length ?g)" using d by blast
  ultimately have "js_index (grid st') (emptyIndex st') = Some (size_n st' * size_n st' - 1)"
    using r ev by (simp add: st' js_index_def)
  with p show ?thesis by (simp add: invariant_def)
qed

lemma move_back:
  assumes inv: "invariant st" and sz: "0 < size_n st" and adj: "adjacent (size_n st) t (emptyIndex st)"
  shows "makeMove st t \<noteq> None \<and>
         Option.bind (makeMove st t) (\<lambda>st'. makeMove st' (emptyIndex st)) = Some st"
proof -
  let ?g = "grid st" and ?e = "emptyIndex st" and ?n = "size_n st"
  have len: "length ?g = nat (?n * ?n)" and undef: "None \<notin> set ?g"
    using inv permutation_length permutation_no_undefined by (auto simp: invariant_def)
  have tr: "0 \<le> t" "t < ?n * ?n" and er: "0 \<le> ?e" "?e < ?n * ?n" and ne: "t \<noteq> ?e"
    using adj adjacent_neq[OF adj] by (simp_all add: adjacent_def)
  then have tl: "nat t < length ?g" and el: "nat ?e < length ?g" using len by simp_all
  have d: "?g ! nat t \<noteq> None" "?g ! nat ?e \<noteq> None" using undef tl el nth_mem by metis+
  define st' where "st' = \<lparr>grid = ?g[nat t := ?g ! nat ?e, nat ?e := ?g ! nat t],
                emptyIndex = t, size_n = ?n\<rparr>"
  have v1: "isValidMove st t"
    unfolding isValidMove_def using getAdjacentIndices_adjacent[OF sz tr] adj by simp
  have m1: "makeMove st t = Some st'"
    unfolding st'_def using makeMove_SomeI[OF v1] tr er tl el d by simp
  have v2: "isValidMove st' ?e"
    unfolding isValidMove_def using getAdjacentIndices_adjacent[OF sz er, of t] adj adjacent_sym
    by (simp add: st'_def)
  have nn: "nat t \<noteq> nat ?e" using ne tr er by simp
  have g': "grid st' ! nat ?e = ?g ! nat t" "grid st' ! nat t = ?g ! nat ?e"
    using tl el nn by (simp_all add: st'_def)
  have "makeMove st' ?e = Some \<lparr>grid = (grid st')[nat ?e := grid st' ! nat (emptyIndex st'),
                                  nat (emptyIndex st') := grid st' ! nat ?e],
                emptyIndex = ?e, size_n = size_n st'\<rparr>"
    using makeMove_SomeI[OF v2] tr er tl el d g' by (simp add: st'_def)
  moreover have "(grid st')[nat ?e := grid st' ! nat (emptyIndex st'),
                                  nat (emptyIndex st') := grid st' ! nat ?e] = ?g"
    using tl el nn by (simp add: st'_def list_update_swap)
  ultimately have "makeMove st' ?e = Some st" by (simp add: st'_def)
  with m1 show ?thesis by simp
qed

lemma makeMove_non_adjacent:
  assumes sz: "0 < size_n st" and len: "length (grid st) = nat (size_n st * size_n st)"
    and na: "\<not> adjacent (size_n st) t (emptyIndex st)"
  shows "makeMove st t = None"
proof (cases "0 \<le> t \<and> t < size_n st * size_n st")
  case True
  then have "\<not> isValidMove st t"
    unfolding isValidMove_def using getAdjacentIndices_adjacent[OF sz, of t] na by simp
  then show ?thesis by (simp add: makeMove_def)
next
  case False
  then have "js_index (grid st) t = None" using len by (auto simp: js_index_def)
  then show ?thesis by (simp add: makeMove_def Let_def)
qed

lemma makeMove_heap_keeps:
  assumes "a < length h"
  shows "fst (makeMove_heap h p t) ! a = h ! a"
  using assms by (simp add: makeMove_heap_def Let_def nth_append)

lemma makeMove_heap_value:
  assumes "grid_ref p < length h"
  shows "map_option (deref (fst (makeMove_heap h p t))) (snd (makeMove_heap h p t))
         = makeMove (deref h p) t"
  using assms
  by (simp add: makeMove_heap_def makeMove_def Let_def deref_def nth_append)

lemma createShuffledPuzzle_invariant:
  assumes "0 \<le> seed" and "sz \<noteq> 0"
  shows "invariant (createShuffledPuzzle sz seed)"
proof -
  let ?g = "grid (createShuffledPuzzle sz seed)"
  have p: "permutation_of_range ?g (nat (sz * sz))"
    by (rule createShuffledPuzzle_permutation[OF assms(1)])
  have "0 < sz * sz" using assms(2) by (auto simp: zero_less_mult_iff)
  then have "sz * sz - 1 = int (nat (sz * sz) - 1)" "nat (sz * sz) - 1 < nat (sz * sz)"
    by simp_all
  then have "Some (sz * sz - 1) \<in> set (map (\<lambda>i. Some (int i)) [0..<nat (sz * sz)])"
    by (metis (no_types, lifting) atLeast0LessThan imageI lessThan_iff set_map set_upt)
  moreover have "set ?g = set (map (\<lambda>i. Some (int i)) [0..<nat (sz * sz)])"
    using p unfolding permutation_of_range_def by (rule mset_eq_setD)
  ultimately have "Some (sz * sz - 1) \<in> set ?g" by simp
  from indexOf_found[OF this]
  have "js_index ?g (emptyIndex (createShuffledPuzzle sz seed)) = Some (sz * sz - 1)"
    by (simp add: createShuffledPuzzle_def Let_def)
  with p show ?thesis by (simp add: invariant_def createShuffledPuzzle_def Let_def)
qed

section \<open>The hint loop\<close>

text \<open>
  Either no candidate scores above the starting \<open>bestScore\<close> and the starting \<open>bestTile\<close>
  comes back, or the loop returns the first candidate whose score is the largest.
\<close>

lemma hint_loop_cases:
  "(hint_loop p xs bt bs = bt \<and>
      (\<forall>k < length xs. \<forall>s. hint_score p (xs ! k) = Some s \<longrightarrow> s \<le> bs)) \<or>
   (\<exists>i < length xs. \<exists>s. hint_loop p xs bt bs = Some (xs ! i) \<and>
      hint_score p (xs ! i) = Some s \<and> bs < s \<and>
      (\<forall>k < length xs. \<forall>s'. hint_score p (xs ! k) = Some s' \<longrightarrow> s' \<le> s \<and> (k < i \<longrightarrow> s' < s)))"
  (is "?A xs bt bs \<or> ?B xs bt bs")
proof (induction xs arbitrary: bt bs)
  case Nil
  then show ?case by simp
next
  case (Cons x xs)
  show ?case
  proof (cases "\<exists>sc. hint_score p x = Some sc \<and> bs < sc")
    case False
    then have skip: "hint_loop p (x # xs) bt bs = hint_loop p xs bt bs"
      by (auto split: option.splits)
    have x: "\<forall>s. hint_score p x = Some s \<longrightarrow> s \<le> bs" using False by auto
    from Cons.IH[of bt bs] show ?thesis
    proof
      assume a: "?A xs bt bs"
      have "\<forall>k < length (x # xs). \<forall>s. hint_score p ((x # xs) ! k) = Some s \<longrightarrow> s \<le> bs"
        using a x by (auto simp: nth_Cons split: nat.splits)
      with a skip show ?thesis by simp
    next
      assume "?B xs bt bs"
      then obtain i s where i: "i < length xs" "hint_loop p xs bt bs = Some (xs ! i)"
        "hint_score p (xs ! i) = Some s" "bs < s"
        "\<forall>k < length xs. \<forall>s'. hint_score p (xs ! k) = Some s' \<longrightarrow> s' \<le> s \<and> (k < i \<longrightarrow> s' < s)"
        by blast
      have "\<forall>k < length (x # xs). \<forall>s'. hint_score p ((x # xs) ! k) = Some s' \<longrightarrow>
              s' \<le> s \<and> (k < Suc i \<longrightarrow> s' < s)"
        using i(4,5) x by (auto simp: nth_Cons split: nat.splits)
      then have "?B (x # xs) bt bs"
        using i(1-4) skip by (intro exI[of _ "Suc i"] exI[of _ s]) simp
      then show ?thesis ..
    qed
  next
    case True
    then obtain sc where sc: "hint_score p x = Some sc" "bs < sc" by blast
    then have take: "hint_loop p (x # xs) bt bs = hint_loop p xs (Some x) sc" by simp
    from Cons.IH[of "Some x" sc] show ?thesis
    proof
      assume a: "?A xs (Some x) sc"
      have "\<forall>k < length (x # xs). \<forall>s'. hint_score p ((x # xs) ! k) = Some s' \<longrightarrow>
              s' \<le> sc \<and> (k < 0 \<longrightarrow> s' < sc)"
        using a sc by (auto simp: nth_Cons split: nat.splits)
      then have "?B (x # xs) bt bs"
        using a sc take by (intro exI[of _ 0] exI[of _ sc]) simp
      then show ?thesis ..
    next
      assume "?B xs (Some x) sc"
      then obtain i s where i: "i < length xs" "hint_loop p xs (Some x) sc = Some (xs ! i)"
        "hint_score p (xs ! i) = Some s" "sc < s"
        "\<forall>k < length xs. \<forall>s'. hint_score p (xs ! k) = Some s' \<longrightarrow> s' \<le> s \<and> (k < i \<longrightarrow> s' < s)"
        by blast
      have "\<forall>k < length (x # xs). \<forall>s'. hint_score p ((x # xs) ! k) = Some s' \<longrightarrow>
              s' \<le> s \<and> (k < Suc i \<longrightarrow> s' < s)"
        using i(4,5) sc by (auto simp: nth_Cons split: nat.splits)
      moreover have "bs < s" using sc(2) i(4) by simp
      ultimately have "?B (x # xs) bt bs"
        using i(1-3) take by (intro exI[of _ "Suc i"] exI[of _ s]) simp
      then show ?thesis ..
    qed
  qed
qed

lemma validMoves_neighbours:
  assumes sz: "0 < size_n p" and e: "0 \<le> emptyIndex p" "emptyIndex p < size_n p * size_n p"
  shows "validMoves p = filter (adjacent (size_n p) (emptyIndex p))
           [emptyIndex p - size_n p, emptyIndex p + size_n p, emptyIndex p - 1, emptyIndex p + 1]"
proof -
  let ?e = "emptyIndex p" and ?n = "size_n p"
  have mem: "adjacent ?n ?e t \<longleftrightarrow>
     (t = ?e - ?n \<and> 0 < ?e div ?n) \<or> (t = ?e + ?n \<and> ?e div ?n < ?n - 1) \<or>
     (t = ?e - 1 \<and> 0 < ?e mod ?n) \<or> (t = ?e + 1 \<and> ?e mod ?n < ?n - 1)" for t
    using getAdjacentIndices_adjacent[OF sz e, of t] getAdjacentIndices_mem[OF sz e, of t] by simp
  have one: "?n = 1 \<Longrightarrow> ?e div ?n = 0 \<and> ?e mod ?n = 0" using e by simp
  have r: "js_rem ?e ?n = ?e mod ?n" using js_rem_nonneg e(1) sz by simp
  have up: "adjacent ?n ?e (?e - ?n) \<longleftrightarrow> 0 < ?e div ?n" using mem[of "?e - ?n"] sz one by auto
  have down: "adjacent ?n ?e (?e + ?n) \<longleftrightarrow> ?e div ?n < ?n - 1" using mem[of "?e + ?n"] sz one by auto
  have left: "adjacent ?n ?e (?e - 1) \<longleftrightarrow> 0 < ?e mod ?n" using mem[of "?e - 1"] sz one by auto
  have right: "adjacent ?n ?e (?e + 1) \<longleftrightarrow> ?e mod ?n < ?n - 1" using mem[of "?e + 1"] sz one by auto
  show ?thesis unfolding validMoves_def Let_def r by (simp add: up down left right)
qed

section \<open>Searching and sorting the table\<close>

lemma findIndex_ge: "- 1 \<le> findIndex P xs"
  by (induction xs) (auto simp: Let_def)

lemma findIndex_none: "(\<forall>x \<in> set xs. \<not> P x) \<longleftrightarrow> findIndex P xs = - 1"
proof (induction xs)
  case Nil
  then show ?case by simp
next
  case (Cons x xs)
  have "findIndex P xs + 1 \<noteq> - 1" using findIndex_ge[of P xs] by linarith
  with Cons show ?case by (auto simp: Let_def)
qed

lemma findIndex_found:
  assumes "0 \<le> findIndex P xs"
  shows "nat (findIndex P xs) < length xs \<and> P (xs ! nat (findIndex P xs)) \<and>
         (\<forall>k < nat (findIndex P xs). \<not> P (xs ! k))"
  using assms
proof (induction xs)
  case Nil
  then show ?case by simp
next
  case (Cons x xs)
  show ?case
  proof (cases "P x")
    case True
    then show ?thesis by simp
  next
    case False
    with Cons.prems have r: "findIndex P xs \<noteq> - 1" "findIndex P (x # xs) = findIndex P xs + 1"
      by (auto simp: Let_def split: if_splits)
    then have nn: "0 \<le> findIndex P xs" using findIndex_ge[of P xs] by linarith
    then have "nat (findIndex P xs + 1) = Suc (nat (findIndex P xs))" by simp
    then have e: "nat (findIndex P (x # xs)) = Suc (nat (findIndex P xs))"
      by (simp only: r(2))
    from Cons.IH[OF nn] show ?thesis unfolding e using False
      by (auto simp: nth_Cons split: nat.splits)
  qed
qed

lemma better_lex: "better a b \<longleftrightarrow> lex_less (time_moves a) (time_moves b)"
  by (simp add: better_def lex_less_def time_moves_def)

lemma compare_le: "compare_entries a b \<le> 0 \<longleftrightarrow> \<not> lex_less (time_moves b) (time_moves a)"
  by (auto simp: compare_entries_def lex_less_def time_moves_def)

lemma mset_insert_entry: "mset (insert_entry x ys) = add_mset x (mset ys)"
  by (induction ys) auto

lemma mset_sort_entries: "mset (sort_entries xs) = mset xs"
  unfolding sort_entries_def by (induction xs) (auto simp: mset_insert_entry)

lemma set_insert_entry: "set (insert_entry x ys) = insert x (set ys)"
  using mset_insert_entry[of x ys] by (metis set_mset_add_mset_insert set_mset_mset)

lemma ascending_insert_entry: "ascending ys \<Longrightarrow> ascending (insert_entry x ys)"
proof (induction ys)
  case Nil
  then show ?case by (simp add: ascending_def)
next
  case (Cons y ys)
  show ?case
  proof (cases "compare_entries x y \<le> 0")
    case True
    then have xy: "\<not> lex_less (time_moves y) (time_moves x)" by (simp add: compare_le)
    have "\<forall>z \<in> set ys. \<not> lex_less (time_moves z) (time_moves x)"
      using Cons.prems xy by (auto simp: ascending_def lex_less_def)
    then show ?thesis using True Cons.prems xy by (auto simp: ascending_def)
  next
    case False
    then have "lex_less (time_moves y) (time_moves x)" by (simp add: compare_le)
    then have yx: "\<not> lex_less (time_moves x) (time_moves y)" by (auto simp: lex_less_def)
    have "ascending ys" using Cons.prems by (simp add: ascending_def)
    from Cons.IH[OF this] have "ascending (insert_entry x ys)" .
    then show ?thesis using False Cons.prems yx
      by (auto simp: ascending_def set_insert_entry)
  qed
qed

lemma ascending_sort_entries: "ascending (sort_entries xs)"
  unfolding sort_entries_def
  by (induction xs) (simp_all add: ascending_insert_entry, simp add: ascending_def)

lemma length_sort_entries: "length (sort_entries xs) = length xs"
  using mset_sort_entries[of xs] by (metis size_mset)

lemma ascending_take_drop:
  assumes "ascending xs" "x \<in> set (take n xs)" "y \<in> set (drop n xs)"
  shows "\<not> lex_less (time_moves y) (time_moves x)"
proof -
  have "ascending (take n xs @ drop n xs)" using assms(1) by simp
  then show ?thesis using assms(2,3) unfolding ascending_def sorted_wrt_append by blast
qed

lemma ascending_take: "ascending xs \<Longrightarrow> ascending (take n xs)"
  unfolding ascending_def by (rule sorted_wrt_take)

lemma findIndex_absent:
  "(\<forall>x \<in> set xs. \<not> P x) \<longleftrightarrow> \<not> 0 \<le> findIndex P xs"
  using findIndex_none[of xs P] findIndex_ge[of P xs] by auto

lemma inserted_explicit:
  "inserted leaderboard entry =
     (if \<forall>x \<in> set leaderboard. username x \<noteq> username entry then leaderboard @ [entry]
      else leaderboard[nat (findIndex (\<lambda>x. username x = username entry) leaderboard) := entry])"
  using findIndex_absent[of leaderboard "\<lambda>x. username x = username entry"]
  by (simp add: inserted_def Let_def)

lemma submit_inserted:
  assumes "(\<forall>x \<in> set leaderboard. username x \<noteq> username entry) \<or>
           lex_less (time_moves entry)
             (time_moves (leaderboard ! nat (findIndex (\<lambda>x. username x = username entry) leaderboard)))"
  shows "submit leaderboard entry = sort_and_rank (inserted leaderboard entry) (username entry)"
proof (cases "\<forall>x \<in> set leaderboard. username x \<noteq> username entry")
  case True
  then have "\<not> 0 \<le> findIndex (\<lambda>x. username x = username entry) leaderboard"
    using findIndex_absent[of leaderboard "\<lambda>x. username x = username entry"] by simp
  then show ?thesis by (simp add: submit_def inserted_def Let_def)
next
  case False
  then have i: "0 \<le> findIndex (\<lambda>x. username x = username entry) leaderboard"
    using findIndex_absent[of leaderboard "\<lambda>x. username x = username entry"] by simp
  from False assms have "lex_less (time_moves entry)
     (time_moves (leaderboard ! nat (findIndex (\<lambda>x. username x = username entry) leaderboard)))"
    by blast
  then have "better entry
     (leaderboard ! nat (findIndex (\<lambda>x. username x = username entry) leaderboard))"
    by (simp add: better_lex)
  with i show ?thesis by (simp add: submit_def inserted_def Let_def)
qed

lemma distinct_inserted:
  assumes "distinct (map username leaderboard)"
  shows "distinct (map username (inserted leaderboard entry))"
proof (cases "0 \<le> findIndex (\<lambda>e. username e = username entry) leaderboard")
  case True
  let ?i = "nat (findIndex (\<lambda>e. username e = username entry) leaderboard)"
  from findIndex_found[OF True]
  have i: "?i < length leaderboard" "username (leaderboard ! ?i) = username entry" by simp_all
  have "map username (leaderboard[?i := entry]) = (map username leaderboard)[?i := username entry]"
    by (simp add: map_update)
  also have "\<dots> = map username leaderboard" using i by (metis list_update_id nth_map)
  finally show ?thesis using assms True by (simp add: inserted_def)
next
  case False
  then have "findIndex (\<lambda>e. username e = username entry) leaderboard = - 1"
    using findIndex_ge[of "\<lambda>e. username e = username entry" leaderboard] by linarith
  then have "\<forall>x \<in> set leaderboard. username x \<noteq> username entry"
    using findIndex_none[of leaderboard "\<lambda>e. username e = username entry"] by simp
  then show ?thesis using assms False by (auto simp: inserted_def)
qed

lemma distinct_usernames_top:
  assumes "distinct (map username xs)"
  shows "distinct (map username (take n (sort_entries xs)))"
proof -
  have "mset (map username (sort_entries xs)) = mset (map username xs)"
    by (simp add: mset_sort_entries)
  then have "distinct (map username (sort_entries xs))"
    using assms by (metis mset_eq_imp_distinct_iff)
  then show ?thesis by (simp add: take_map[symmetric] del: take_map)
qed

lemma findIndex_distinct:
  assumes "distinct (map f xs)" "x \<in> set xs"
  shows "0 \<le> findIndex (\<lambda>y. f y = f x) xs \<and> findIndex (\<lambda>y. f y = f x) xs < int (length xs) \<and>
         xs ! nat (findIndex (\<lambda>y. f y = f x) xs) = x"
proof -
  let ?i = "findIndex (\<lambda>y. f y = f x) xs"
  have "?i \<noteq> - 1" using findIndex_none[of xs "\<lambda>y. f y = f x"] assms(2) by auto
  then have nn: "0 \<le> ?i" using findIndex_ge[of "\<lambda>y. f y = f x" xs] by linarith
  from findIndex_found[OF nn] have i: "nat ?i < length xs" "f (xs ! nat ?i) = f x" by simp_all
  have "inj_on f (set xs)" using assms(1) by (simp add: distinct_map)
  then have "xs ! nat ?i = x" using i assms(2) by (meson inj_onD nth_mem)
  with nn i(1) show ?thesis by simp
qed

section \<open>Shuffle generation: solvability of the result\<close>

text \<open>
  C2. The fallback board, the solved grid with its last two cells exchanged, at each of the
  three sizes. For sizes 3 and 5 \<open>isSolvable\<close> accepts it. For size 4 it is the board
  \<open>0, \<dots>, 13, 15, 14\<close>: the empty tile 15 sits at index 14 in row 3 and there is no
  inversion, so the sum is 3 and \<open>isSolvable\<close> rejects it, although one move of the tile at
  index 15 turns it into the solved board.
\<close>

theorem fallback_board_solvability:
  "fallbackGrid (4 * 4) =
     [Some 0, Some 1, Some 2, Some 3, Some 4, Some 5, Some 6, Some 7, Some 8, Some 9,
      Some 10, Some 11, Some 12, Some 13, Some 15, Some 14] \<and>
   countInversions (fallbackGrid (4 * 4)) 4 = 0 \<and>
   getEmptyRow (fallbackGrid (4 * 4)) 4 = 3 \<and>
   \<not> isSolvable (fallbackGrid (4 * 4)) 4 \<and>
   makeMove \<lparr>grid = fallbackGrid (4 * 4), emptyIndex = 14, size_n = 4\<rparr> 15
     = Some \<lparr>grid = solvedGrid (4 * 4), emptyIndex = 15, size_n = 4\<rparr> \<and>
   isSolved \<lparr>grid = solvedGrid (4 * 4), emptyIndex = 15, size_n = 4\<rparr> \<and>
   isSolvable (fallbackGrid (3 * 3)) 3 \<and>
   isSolvable (fallbackGrid (5 * 5)) 5"
  by code_simp

text \<open>
  Towards C1. At the seed \<open>-610\<close> and size 3 the generator state turns negative, the drawn
  indices fall below 0, and the first shuffle already passes \<open>isSolvable\<close> with three
  \<open>undefined\<close> cells: the board returned is not a permutation of \<open>0..8\<close>.
\<close>

lemma createShuffledPuzzle_negative_seed:
  "grid (createShuffledPuzzle 3 (- 610)) =
     [Some 0, Some 4, Some 3, None, Some 7, Some 6, None, Some 8, None] \<and>
   \<not> permutation_of_range (grid (createShuffledPuzzle 3 (- 610))) (nat (3 * 3))"
proof -
  have g: "grid (createShuffledPuzzle 3 (- 610)) =
     [Some 0, Some 4, Some 3, None, Some 7, Some 6, None, Some 8, None]"
    by code_simp
  have "None \<in> set (grid (createShuffledPuzzle 3 (- 610)))" unfolding g by simp
  then show ?thesis using g permutation_no_undefined by blast
qed

text \<open>
  Towards C1. For a seed from 0 up to \<open>2^32 - 1\<close> (the daily seed is the absolute value of
  a 32-bit hash) and a size among 3, 4 and 5, the board of \<open>createShuffledPuzzle\<close> is a
  permutation of \<open>0..size\<^sup>2 - 1\<close>. It satisfies \<open>isSolvable\<close> for the sizes 3 and 5, and
  for size 4 whenever it is not the fallback board of the 101st attempt. Whether a seed of
  that range reaches the fallback at size 4 is a statement about all \<open>2^32\<close> runs of the
  generator; it is not decided here.
\<close>

lemma createShuffledPuzzle_solvable:
  assumes "0 \<le> seed" and "seed < 2 ^ 32" and "sz \<in> {3, 4, 5}"
  shows "permutation_of_range (grid (createShuffledPuzzle sz seed)) (nat (sz * sz)) \<and>
         (isSolvable (grid (createShuffledPuzzle sz seed)) sz \<or>
          (sz = 4 \<and> grid (createShuffledPuzzle sz seed) = fallbackGrid (4 * 4)))"
proof -
  have f3: "isSolvable (fallbackGrid (3 * 3)) 3" by code_simp
  have f5: "isSolvable (fallbackGrid (5 * 5)) 5" by code_simp
  have g: "grid (createShuffledPuzzle sz seed) = shuffle_loop sz (sz * sz) seed 0"
    by (simp add: createShuffledPuzzle_def Let_def)
  from shuffle_loop_result[OF assms(1), of sz "sz * sz" 0]
  have "isSolvable (shuffle_loop sz (sz * sz) seed 0) sz \<or>
        shuffle_loop sz (sz * sz) seed 0 = fallbackGrid (sz * sz)" by simp
  then have "isSolvable (grid (createShuffledPuzzle sz seed)) sz \<or>
          (sz = 4 \<and> grid (createShuffledPuzzle sz seed) = fallbackGrid (4 * 4))"
    unfolding g using assms(3) f3 f5 by auto
  with createShuffledPuzzle_permutation[OF assms(1)] show ?thesis by simp
qed

lemma createShuffledPuzzle_solvable_instance:
  "(0::int) \<le> 0 \<and> (0::int) < 2 ^ 32 \<and> (4::int) \<in> {3, 4, 5} \<and>
   grid (createShuffledPuzzle 4 0) =
     [Some 1, Some 0, Some 12, Some 2, Some 9, Some 10, Some 7, Some 13,
      Some 5, Some 15, Some 6, Some 14, Some 8, Some 11, Some 4, Some 3] \<and>
   permutation_of_range (grid (createShuffledPuzzle 4 0)) (nat (4 * 4)) \<and>
   isSolvable (grid (createShuffledPuzzle 4 0)) 4"
proof -
  have g: "grid (createShuffledPuzzle 4 0) =
     [Some 1, Some 0, Some 12, Some 2, Some 9, Some 10, Some 7, Some 13,
      Some 5, Some 15, Some 6, Some 14, Some 8, Some 11, Some 4, Some 3]"
    by code_simp
  have nf: "grid (createShuffledPuzzle 4 0) \<noteq> fallbackGrid (4 * 4)"
    unfolding g by code_simp
  have h: "(0::int) \<le> 0" "(0::int) < 2 ^ 32" "(4::int) \<in> {3, 4, 5}" by simp_all
  from createShuffledPuzzle_solvable[OF h] nf
  have p: "permutation_of_range (grid (createShuffledPuzzle 4 0)) (nat (4 * 4))"
    and s: "isSolvable (grid (createShuffledPuzzle 4 0)) 4" by blast+
  show ?thesis using h g p s by - (intro conjI; assumption)
qed

section \<open>Moves: the claims\<close>

text \<open>
  C3. In a state whose grid has \<open>size\<^sup>2\<close> cells, a \<open>tileIndex\<close> that is not orthogonally
  adjacent to \<open>emptyIndex\<close>, be it inside the grid, negative or beyond the last cell, makes
  \<open>makeMove\<close> return \<open>null\<close>, and the array of the input state holds the same sequence
  after the call.
\<close>

theorem makeMove_rejects_non_adjacent:
  assumes "0 < size_o p" and "grid_ref p < length h"
    and "length (h ! grid_ref p) = nat (size_o p * size_o p)"
    and "\<not> adjacent (size_o p) tileIndex (emptyIndex_o p)"
  shows "snd (makeMove_heap h p tileIndex) = None \<and>
         fst (makeMove_heap h p tileIndex) ! grid_ref p = h ! grid_ref p \<and>
         makeMove (deref h p) tileIndex = None"
proof -
  have "makeMove (deref h p) tileIndex = None"
    using makeMove_non_adjacent[of "deref h p" tileIndex] assms by (simp add: deref_def)
  moreover from this have "snd (makeMove_heap h p tileIndex) = None"
    using makeMove_heap_value[OF assms(2), of tileIndex] by simp
  ultimately show ?thesis using makeMove_heap_keeps[OF assms(2)] by simp
qed

text \<open>
  The instance: the solved 3 by 3 board at address 0, empty cell 8, and the index 11 beyond
  the grid. \<open>isValidMove\<close> accepts 11 (8 is its upper neighbour by arithmetic), the copy is
  made, and the \<open>undefined\<close> read ends the call with \<open>null\<close>.
\<close>

theorem makeMove_rejects_non_adjacent_witness:
  "\<not> adjacent 3 11 8 \<and>
   isValidMove \<lparr>grid = solvedGrid 9, emptyIndex = 8, size_n = 3\<rparr> 11 \<and>
   snd (makeMove_heap [solvedGrid 9] \<lparr>grid_ref = 0, emptyIndex_o = 8, size_o = 3\<rparr> 11) = None \<and>
   fst (makeMove_heap [solvedGrid 9] \<lparr>grid_ref = 0, emptyIndex_o = 8, size_o = 3\<rparr> 11) ! 0
     = solvedGrid 9"
proof -
  let ?p = "\<lparr>grid_ref = 0, emptyIndex_o = 8, size_o = 3\<rparr>"
  have na: "\<not> adjacent 3 11 8" by code_simp
  have v: "isValidMove \<lparr>grid = solvedGrid 9, emptyIndex = 8, size_n = 3\<rparr> 11" by code_simp
  have h1: "0 < size_o ?p" by simp
  have h2: "grid_ref ?p < length [solvedGrid 9]" by simp
  have h3: "length ([solvedGrid 9] ! grid_ref ?p) = nat (size_o ?p * size_o ?p)"
    by (simp add: solvedGrid_def)
  have h4: "\<not> adjacent (size_o ?p) 11 (emptyIndex_o ?p)" using na by simp
  from makeMove_rejects_non_adjacent[OF h1 h2 h3 h4]
  have "snd (makeMove_heap [solvedGrid 9] ?p 11) = None"
    and "fst (makeMove_heap [solvedGrid 9] ?p 11) ! 0 = solvedGrid 9" by simp_all
  with na v show ?thesis by blast
qed

text \<open>
  C4, as stated, at the seed \<open>-700\<close> and size 3: the board returned is
  \<open>0, 2, 5, 6, 8, 7\<close> followed by three \<open>undefined\<close> cells, so the invariant fails.
\<close>

theorem createShuffledPuzzle_negative_seed_invariant:
  "grid (createShuffledPuzzle 3 (- 700)) =
     [Some 0, Some 2, Some 5, Some 6, Some 8, Some 7, None, None, None] \<and>
   \<not> invariant (createShuffledPuzzle 3 (- 700))"
proof -
  have g: "grid (createShuffledPuzzle 3 (- 700)) =
     [Some 0, Some 2, Some 5, Some 6, Some 8, Some 7, None, None, None]"
    by code_simp
  have "None \<in> set (grid (createShuffledPuzzle 3 (- 700)))" unfolding g by simp
  then have "\<not> invariant (createShuffledPuzzle 3 (- 700))"
    unfolding invariant_def using permutation_no_undefined by blast
  with g show ?thesis by simp
qed

text \<open>
  C4, amended. The PuzzleState invariant holds for the state \<open>createShuffledPuzzle\<close>
  returns for a size among 3, 4 and 5 and a seed from 0 up to \<open>2^32 - 1\<close>, and \<open>makeMove\<close>
  preserves it: from a state satisfying it, every state \<open>makeMove\<close> returns satisfies it.
\<close>

theorem invariant_established_and_preserved:
  "(0 \<le> seed \<and> seed < 2 ^ 32 \<and> sz \<in> {3, 4, 5} \<longrightarrow> invariant (createShuffledPuzzle sz seed)) \<and>
   (invariant st \<and> makeMove st tileIndex = Some st' \<longrightarrow> invariant st')"
proof (intro conjI impI)
  assume "0 \<le> seed \<and> seed < 2 ^ 32 \<and> sz \<in> {3, 4, 5}"
  then have "0 \<le> seed" "sz \<noteq> 0" by auto
  then show "invariant (createShuffledPuzzle sz seed)" by (rule createShuffledPuzzle_invariant)
next
  assume "invariant st \<and> makeMove st tileIndex = Some st'"
  then show "invariant st'" using makeMove_invariant by blast
qed

theorem invariant_established_and_preserved_witness:
  "createShuffledPuzzle 3 42 =
     \<lparr>grid = [Some 8, Some 3, Some 6, Some 7, Some 5, Some 1, Some 4, Some 0, Some 2],
      emptyIndex = 0, size_n = 3\<rparr> \<and>
   invariant (createShuffledPuzzle 3 42) \<and>
   makeMove (createShuffledPuzzle 3 42) 1 =
     Some \<lparr>grid = [Some 3, Some 8, Some 6, Some 7, Some 5, Some 1, Some 4, Some 0, Some 2],
           emptyIndex = 1, size_n = 3\<rparr> \<and>
   invariant \<lparr>grid = [Some 3, Some 8, Some 6, Some 7, Some 5, Some 1, Some 4, Some 0, Some 2],
              emptyIndex = 1, size_n = 3\<rparr>"
proof -
  let ?st' = "\<lparr>grid = [Some 3, Some 8, Some 6, Some 7, Some 5, Some 1, Some 4, Some 0, Some 2],
               emptyIndex = 1, size_n = 3\<rparr>"
  have c: "createShuffledPuzzle 3 42 =
     \<lparr>grid = [Some 8, Some 3, Some 6, Some 7, Some 5, Some 1, Some 4, Some 0, Some 2],
      emptyIndex = 0, size_n = 3\<rparr>" by code_simp
  have m: "makeMove (createShuffledPuzzle 3 42) 1 = Some ?st'" unfolding c by code_simp
  have h: "(0::int) \<le> 42 \<and> (42::int) < 2 ^ 32 \<and> (3::int) \<in> {3, 4, 5}" by simp
  note t = invariant_established_and_preserved[of 42 3 "createShuffledPuzzle 3 42" 1 ?st']
  from t h have i: "invariant (createShuffledPuzzle 3 42)" by blast
  with t m have "invariant ?st'" by blast
  with c i m show ?thesis by blast
qed

text \<open>
  C7. From a state satisfying the invariant, with a positive size, moving the tile at an
  index \<open>t\<close> adjacent to the empty cell \<open>e\<close> succeeds, and moving the tile at \<open>e\<close> in the
  state so reached succeeds and gives back the first state: the same board, \<open>emptyIndex\<close>
  equal to \<open>e\<close>, the same size.
\<close>

theorem makeMove_then_inverse:
  assumes "invariant st" and "0 < size_n st" and "adjacent (size_n st) t (emptyIndex st)"
  shows "makeMove st t \<noteq> None \<and>
         Option.bind (makeMove st t) (\<lambda>st'. makeMove st' (emptyIndex st)) = Some st"
  using assms by (rule move_back)

theorem makeMove_then_inverse_witness:
  "invariant \<lparr>grid = solvedGrid 9, emptyIndex = 8, size_n = 3\<rparr> \<and> adjacent 3 5 8 \<and>
   makeMove \<lparr>grid = solvedGrid 9, emptyIndex = 8, size_n = 3\<rparr> 5 =
     Some \<lparr>grid = [Some 0, Some 1, Some 2, Some 3, Some 4, Some 8, Some 6, Some 7, Some 5],
           emptyIndex = 5, size_n = 3\<rparr> \<and>
   makeMove \<lparr>grid = [Some 0, Some 1, Some 2, Some 3, Some 4, Some 8, Some 6, Some 7, Some 5],
             emptyIndex = 5, size_n = 3\<rparr> 8 =
     Some \<lparr>grid = solvedGrid 9, emptyIndex = 8, size_n = 3\<rparr>"
proof -
  let ?st = "\<lparr>grid = solvedGrid 9, emptyIndex = 8, size_n = 3\<rparr>"
  let ?st' = "\<lparr>grid = [Some 0, Some 1, Some 2, Some 3, Some 4, Some 8, Some 6, Some 7, Some 5],
               emptyIndex = 5, size_n = 3\<rparr>"
  have i: "invariant ?st" by code_simp
  have a: "adjacent 3 5 8" by code_simp
  have m: "makeMove ?st 5 = Some ?st'" by code_simp
  have h2: "0 < size_n ?st" by simp
  have h3: "adjacent (size_n ?st) 5 (emptyIndex ?st)" using a by simp
  from makeMove_then_inverse[OF i h2 h3]
  have "Option.bind (makeMove ?st 5) (\<lambda>st'. makeMove st' (emptyIndex ?st)) = Some ?st" by blast
  then have "makeMove ?st' 8 = Some ?st" unfolding m by simp
  with i a m show ?thesis by blast
qed

section \<open>Hint heuristic: the claim\<close>

text \<open>
  C8, as stated, on the solved 3 by 3 board: the candidates are the tiles at 5 (up) and 7
  (left), both score \<open>-1\<close>, and \<open>getNextMoveHint\<close> returns \<open>null\<close>, not the index 5 of the
  first tile with the largest score.
\<close>

theorem getNextMoveHint_solved_board:
  "validMoves \<lparr>grid = solvedGrid 9, emptyIndex = 8, size_n = 3\<rparr> = [5, 7] \<and>
   hint_score \<lparr>grid = solvedGrid 9, emptyIndex = 8, size_n = 3\<rparr> 5 = Some (- 1) \<and>
   hint_score \<lparr>grid = solvedGrid 9, emptyIndex = 8, size_n = 3\<rparr> 7 = Some (- 1) \<and>
   getNextMoveHint \<lparr>grid = solvedGrid 9, emptyIndex = 8, size_n = 3\<rparr> = None"
  by code_simp

text \<open>
  C8, amended. For a state with a positive size and \<open>emptyIndex\<close> inside the grid, the
  candidates are the cells orthogonally adjacent to the empty cell, in the order up, down,
  left, right. A candidate holding the tile \<open>v\<close> is scored by its Manhattan distance to the
  cell \<open>v\<close> minus the Manhattan distance from the empty cell to the cell \<open>v\<close>. The
  heuristic returns the first candidate, in that order, whose score is the largest,
  provided that score exceeds \<open>-1\<close>; when no candidate scores above \<open>-1\<close> it returns
  \<open>null\<close>.
\<close>

theorem getNextMoveHint_first_best_above_minus_one:
  assumes "0 < size_n p" and "0 \<le> emptyIndex p" and "emptyIndex p < size_n p * size_n p"
  shows
    "validMoves p = filter (adjacent (size_n p) (emptyIndex p))
       [emptyIndex p - size_n p, emptyIndex p + size_n p, emptyIndex p - 1, emptyIndex p + 1] \<and>
     (\<forall>t v. js_index (grid p) t = Some v \<and> 0 \<le> v \<longrightarrow>
        hint_score p t =
          Some (manhattan (size_n p) t v - manhattan (size_n p) (emptyIndex p) v)) \<and>
     ((getNextMoveHint p = None \<and>
        (\<forall>k < length (validMoves p). \<forall>s. hint_score p (validMoves p ! k) = Some s \<longrightarrow> s \<le> - 1)) \<or>
      (\<exists>i < length (validMoves p). \<exists>s. getNextMoveHint p = Some (validMoves p ! i) \<and>
        hint_score p (validMoves p ! i) = Some s \<and> - 1 < s \<and>
        (\<forall>k < length (validMoves p). \<forall>s'. hint_score p (validMoves p ! k) = Some s' \<longrightarrow>
            s' \<le> s \<and> (k < i \<longrightarrow> s' < s))))"
proof -
  have "hint_score p t = Some (manhattan (size_n p) t v - manhattan (size_n p) (emptyIndex p) v)"
    if "js_index (grid p) t = Some v \<and> 0 \<le> v" for t v
  proof -
    from that have "0 \<le> t" "0 \<le> v" by (auto simp: js_index_def split: if_splits)
    then have "js_rem t (size_n p) = t mod size_n p" "js_rem v (size_n p) = v mod size_n p"
        "js_rem (emptyIndex p) (size_n p) = emptyIndex p mod size_n p"
      using assms(1,2) by (simp_all add: js_rem_nonneg)
    then show ?thesis using that by (simp add: hint_score_def Let_def manhattan_def)
  qed
  then show ?thesis
    using validMoves_neighbours[OF assms] hint_loop_cases[of p "validMoves p" None "- 1"]
    unfolding getNextMoveHint_def by blast
qed

theorem getNextMoveHint_first_best_above_minus_one_witness:
  "createShuffledPuzzle 3 42 =
     \<lparr>grid = [Some 8, Some 3, Some 6, Some 7, Some 5, Some 1, Some 4, Some 0, Some 2],
      emptyIndex = 0, size_n = 3\<rparr> \<and>
   validMoves (createShuffledPuzzle 3 42) = [3, 1] \<and>
   [3, 1] = filter (adjacent 3 0) [0 - 3, 0 + 3, 0 - 1, 0 + 1] \<and>
   hint_score (createShuffledPuzzle 3 42) 3 = Some (manhattan 3 3 7 - manhattan 3 0 7) \<and>
   hint_score (createShuffledPuzzle 3 42) 3 = Some (- 1) \<and>
   hint_score (createShuffledPuzzle 3 42) 1 = Some 1 \<and>
   getNextMoveHint (createShuffledPuzzle 3 42) = Some 1"
proof -
  let ?p = "createShuffledPuzzle 3 42"
  have c: "createShuffledPuzzle 3 42 =
     \<lparr>grid = [Some 8, Some 3, Some 6, Some 7, Some 5, Some 1, Some 4, Some 0, Some 2],
      emptyIndex = 0, size_n = 3\<rparr>" by code_simp
  have v: "validMoves ?p = [3, 1]" unfolding c by code_simp
  have s3: "hint_score ?p 3 = Some (- 1)" unfolding c by code_simp
  have s1: "hint_score ?p 1 = Some 1" unfolding c by code_simp
  have g: "getNextMoveHint ?p = Some 1" unfolding c by code_simp
  have cell: "js_index (grid ?p) 3 = Some 7 \<and> (0::int) \<le> 7" unfolding c by code_simp
  have h: "0 < size_n ?p" "0 \<le> emptyIndex ?p" "emptyIndex ?p < size_n ?p * size_n ?p"
    unfolding c by simp_all
  note t = getNextMoveHint_first_best_above_minus_one[OF h]
  from t have "validMoves ?p = filter (adjacent (size_n ?p) (emptyIndex ?p))
           [emptyIndex ?p - size_n ?p, emptyIndex ?p + size_n ?p, emptyIndex ?p - 1,
            emptyIndex ?p + 1]" by (rule conjunct1)
  then have f: "[3, 1] = filter (adjacent 3 0) [0 - 3, 0 + 3, 0 - 1, 0 + 1]"
    unfolding v unfolding c by simp
  from t[THEN conjunct2, THEN conjunct1] cell
  have "hint_score ?p 3 = Some (manhattan (size_n ?p) 3 7 - manhattan (size_n ?p) (emptyIndex ?p) 7)"
    by blast
  then have m: "hint_score ?p 3 = Some (manhattan 3 3 7 - manhattan 3 0 7)"
    unfolding c by simp
  from c v f m s3 s1 g show ?thesis by blast
qed

section \<open>Leaderboard: the claims\<close>

text \<open>
  C5. When the table holds an entry for the submitting user, \<open>existing\<close> is the first such
  entry (the only one when user names are distinct). If the submitted \<open>(time, moves)\<close> pair
  is lexicographically strictly less than the existing pair, the submission takes the
  place of that entry (and the table is then sorted and cut to 100). Otherwise the table
  is returned unchanged, the answer is the one for a retained score, and the rank is 1 plus
  the number of entries of the table strictly less than the existing one.
\<close>

theorem submit_existing_user:
  assumes "e \<in> set leaderboard" and "username e = username entry"
  shows "let i = nat (findIndex (\<lambda>x. username x = username entry) leaderboard);
             existing = leaderboard ! i
         in i < length leaderboard \<and> username existing = username entry \<and>
            (distinct (map username leaderboard) \<longrightarrow> existing = e) \<and>
            (if lex_less (time_moves entry) (time_moves existing)
             then fst (submit leaderboard entry) = take 100 (sort_entries (leaderboard[i := entry])) \<and>
                  snd (snd (submit leaderboard entry)) = Submitted
             else submit leaderboard entry =
                    (leaderboard,
                     1 + int (length (filter (\<lambda>x. lex_less (time_moves x) (time_moves existing))
                                        leaderboard)),
                     Retained))"
proof -
  let ?P = "\<lambda>x. username x = username entry"
  let ?i = "nat (findIndex ?P leaderboard)"
  have "findIndex ?P leaderboard \<noteq> - 1"
    using findIndex_none[of leaderboard ?P] assms by auto
  then have nn: "0 \<le> findIndex ?P leaderboard" using findIndex_ge[of ?P leaderboard] by linarith
  from findIndex_found[OF nn]
  have i: "?i < length leaderboard" "username (leaderboard ! ?i) = username entry" by simp_all
  have d: "distinct (map username leaderboard) \<longrightarrow> leaderboard ! ?i = e"
    using findIndex_distinct[of username leaderboard e] assms by simp
  have s: "submit leaderboard entry =
      (if better entry (leaderboard ! ?i)
       then sort_and_rank (leaderboard[?i := entry]) (username entry)
       else (leaderboard,
             int (length (filter (\<lambda>x. better x (leaderboard ! ?i)) leaderboard)) + 1, Retained))"
    using nn by (simp add: submit_def Let_def)
  show ?thesis
    unfolding Let_def using i d
    by (simp add: s better_lex sort_and_rank_def Let_def)
qed

text \<open>
  The instance of the specification: the user's entry is \<open>(100, 5)\<close>, one other entry is
  better, and the submission is \<open>(150, 10)\<close>. The table is kept and the rank is 2.
\<close>

theorem submit_existing_user_witness:
  "submit
     [\<lparr>username = ''bob'', time = 90, moves = 7, difficulty = 3, date = ''2026-11-02''\<rparr>,
      \<lparr>username = ''al'', time = 100, moves = 5, difficulty = 3, date = ''2026-11-02''\<rparr>]
     \<lparr>username = ''al'', time = 150, moves = 10, difficulty = 3, date = ''2026-11-02''\<rparr>
   = ([\<lparr>username = ''bob'', time = 90, moves = 7, difficulty = 3, date = ''2026-11-02''\<rparr>,
       \<lparr>username = ''al'', time = 100, moves = 5, difficulty = 3, date = ''2026-11-02''\<rparr>],
      2, Retained)"
proof -
  let ?bob = "\<lparr>username = ''bob'', time = 90, moves = 7, difficulty = 3, date = ''2026-11-02''\<rparr>"
  let ?al = "\<lparr>username = ''al'', time = 100, moves = 5, difficulty = 3, date = ''2026-11-02''\<rparr>"
  let ?new = "\<lparr>username = ''al'', time = 150, moves = 10, difficulty = 3, date = ''2026-11-02''\<rparr>"
  have h: "?al \<in> set [?bob, ?al]" "username ?al = username ?new" by simp_all
  have i: "nat (findIndex (\<lambda>x. username x = username ?new) [?bob, ?al]) = 1" by code_simp
  have n: "\<not> lex_less (time_moves ?new) (time_moves ?al)" by code_simp
  have k: "1 + int (length (filter (\<lambda>x. lex_less (time_moves x) (time_moves ?al)) [?bob, ?al])) = 2"
    by code_simp
  from submit_existing_user[OF h] show ?thesis
    unfolding Let_def i using n k by simp
qed

text \<open>
  C6. Let the user be absent from the table, or present with an existing entry that the
  submitted \<open>(time, moves)\<close> pair is strictly less than. Then the handler takes the path that
  stores: the table \<open>M\<close> after insertion is the table with the submission appended (user
  absent) or put in the place of the user's entry, the kept table \<open>T\<close> is the first 100
  entries of \<open>M\<close> sorted ascending by \<open>(time, moves)\<close>, and the rank is 1 plus the position
  \<open>findIndex\<close> gives for the user in \<open>T\<close>; when the submission is in \<open>T\<close> and user names
  are distinct, the entry at that position is the submission. With at most 100 entries
  after insertion the submission is kept and nothing is dropped; with more than 100, \<open>T\<close>
  has exactly 100 entries and none of the dropped entries is strictly less than a kept one.
\<close>

theorem submit_sorts_and_keeps_best_100:
  assumes "(\<forall>x \<in> set leaderboard. username x \<noteq> username entry) \<or>
           lex_less (time_moves entry)
             (time_moves (leaderboard ! nat (findIndex (\<lambda>x. username x = username entry) leaderboard)))"
  shows "let M = (if \<forall>x \<in> set leaderboard. username x \<noteq> username entry
                  then leaderboard @ [entry]
                  else leaderboard[nat (findIndex (\<lambda>x. username x = username entry) leaderboard)
                                     := entry]);
             S = sort_entries M;
             T = fst (submit leaderboard entry);
             rank = fst (snd (submit leaderboard entry))
         in snd (snd (submit leaderboard entry)) = Submitted \<and>
            mset S = mset M \<and> ascending S \<and> T = take 100 S \<and>
            rank = 1 + findIndex (\<lambda>x. username x = username entry) T \<and>
            (entry \<in> set T \<and> distinct (map username leaderboard) \<longrightarrow>
               1 \<le> rank \<and> rank \<le> int (length T) \<and> T ! nat (rank - 1) = entry) \<and>
            (length M \<le> 100 \<longrightarrow> entry \<in> set T \<and> length T = length M) \<and>
            (100 < length M \<longrightarrow>
               length T = 100 \<and>
               (\<forall>x \<in> set T. \<forall>y \<in> set (drop 100 S). \<not> lex_less (time_moves y) (time_moves x)))"
proof -
  let ?M = "inserted leaderboard entry"
  let ?S = "sort_entries ?M"
  let ?T = "take 100 ?S"
  let ?r = "1 + findIndex (\<lambda>x. username x = username entry) ?T"
  have s: "submit leaderboard entry = (?T, ?r, Submitted)"
    using submit_inserted[OF assms] by (simp add: sort_and_rank_def Let_def)
  have r: "entry \<in> set ?T \<and> distinct (map username leaderboard) \<longrightarrow>
               1 \<le> ?r \<and> ?r \<le> int (length ?T) \<and> ?T ! nat (?r - 1) = entry"
  proof
    assume a: "entry \<in> set ?T \<and> distinct (map username leaderboard)"
    then have "distinct (map username ?T)"
      using distinct_usernames_top[OF distinct_inserted] by blast
    from findIndex_distinct[OF this, of entry] a
    show "1 \<le> ?r \<and> ?r \<le> int (length ?T) \<and> ?T ! nat (?r - 1) = entry"
      by simp
  qed
  have t: "100 < length ?M \<longrightarrow>
               length ?T = 100 \<and>
               (\<forall>x \<in> set ?T. \<forall>y \<in> set (drop 100 ?S). \<not> lex_less (time_moves y) (time_moves x))"
    using ascending_take_drop[OF ascending_sort_entries] by (auto simp: length_sort_entries)
  have mem: "entry \<in> set ?M"
  proof (cases "\<forall>x \<in> set leaderboard. username x \<noteq> username entry")
    case True
    then show ?thesis by (simp add: inserted_explicit)
  next
    case False
    then have "0 \<le> findIndex (\<lambda>x. username x = username entry) leaderboard"
      using findIndex_absent[of leaderboard "\<lambda>x. username x = username entry"] by simp
    from findIndex_found[OF this]
    have "nat (findIndex (\<lambda>x. username x = username entry) leaderboard) < length leaderboard"
      by simp
    then show ?thesis using False by (simp add: inserted_explicit set_update_memI)
  qed
  have u: "length ?M \<le> 100 \<longrightarrow> entry \<in> set ?T \<and> length ?T = length ?M"
  proof
    assume "length ?M \<le> 100"
    then have "?T = ?S" by (simp add: length_sort_entries)
    moreover have "entry \<in> set ?S" using mem mset_sort_entries[of ?M] by (metis set_mset_mset)
    ultimately show "entry \<in> set ?T \<and> length ?T = length ?M" by (simp add: length_sort_entries)
  qed
  show ?thesis
    unfolding Let_def inserted_explicit[symmetric] s using r t u
    by (simp add: mset_sort_entries ascending_sort_entries)
qed

text \<open>
  The instance: a new user submits \<open>(50, 1)\<close> to the table of one hundred entries. The
  table after insertion has 101 entries, 100 are kept, and the submission is the 51st.
\<close>

theorem submit_sorts_and_keeps_best_100_witness:
  "''new'' \<notin> set (map username sample_table) \<and>
   distinct (map username sample_table) \<and>
   length (sample_table @
       [\<lparr>username = ''new'', time = 50, moves = 1, difficulty = 3, date = ''2026-11-02''\<rparr>]) = 101 \<and>
   snd (snd (submit sample_table
       \<lparr>username = ''new'', time = 50, moves = 1, difficulty = 3, date = ''2026-11-02''\<rparr>))
     = Submitted \<and>
   length (fst (submit sample_table
       \<lparr>username = ''new'', time = 50, moves = 1, difficulty = 3, date = ''2026-11-02''\<rparr>)) = 100 \<and>
   fst (snd (submit sample_table
       \<lparr>username = ''new'', time = 50, moves = 1, difficulty = 3, date = ''2026-11-02''\<rparr>)) = 51 \<and>
   fst (submit sample_table
       \<lparr>username = ''new'', time = 50, moves = 1, difficulty = 3, date = ''2026-11-02''\<rparr>) ! 50
     = \<lparr>username = ''new'', time = 50, moves = 1, difficulty = 3, date = ''2026-11-02''\<rparr>"
proof -
  let ?new = "\<lparr>username = ''new'', time = 50, moves = 1, difficulty = 3, date = ''2026-11-02''\<rparr>"
  have a0: "''new'' \<notin> set (map username sample_table)" by code_simp
  then have a: "\<forall>x \<in> set sample_table. username x \<noteq> username ?new" by force
  have r: "fst (snd (submit sample_table ?new)) = 51" by code_simp
  have l: "length (sample_table @ [?new]) = 101" by code_simp
  have d: "distinct (map username sample_table)" by code_simp
  have m: "?new \<in> set (fst (submit sample_table ?new))" by code_simp
  note t = submit_sorts_and_keeps_best_100[OF disjI1[OF a], unfolded Let_def if_P[OF a] r]
  note o = t[THEN conjunct1]
  note ranked = t[THEN conjunct2, THEN conjunct2, THEN conjunct2, THEN conjunct2, THEN conjunct2,
                  THEN conjunct1]
  note cut = t[THEN conjunct2, THEN conjunct2, THEN conjunct2, THEN conjunct2, THEN conjunct2,
               THEN conjunct2, THEN conjunct2]
  have "100 < length (sample_table @ [?new])" using l by simp
  with cut have n: "length (fst (submit sample_table ?new)) = 100" by blast
  from ranked m d have "fst (submit sample_table ?new) ! nat (51 - 1) = ?new" by blast
  then have "fst (submit sample_table ?new) ! 50 = ?new" by simp
  with a0 d l o n r show ?thesis by blast
qed

text \<open>
  The \<open>/leaderboard\<close> handler does check the difficulty: whatever the store holds, a
  parsed value other than 3, 4 and 5 is answered with status 400.
\<close>

lemma get_leaderboard_validates:
  assumes "difficultyQuery = Some d" and "d \<noteq> []"
    and "parseInt d \<notin> {Some 3, Some 4, Some 5}"
  shows "get_leaderboard parseInt redis today dateQuery difficultyQuery
         = LeaderboardErrorResponse 400 ''Invalid difficulty. Must be 3, 4, or 5''"
  using assms by (simp add: get_leaderboard_def Let_def)

lemma submit_score_validates_presence:
  assumes "falsy (difficulty_r body)"
  shows "submit_score redis currentUsername today body
         = (redis, SubmitScoreErrorResponse 400
                     ''Missing required fields: time, moves, difficulty'')"
  using assms by (simp add: submit_score_def)

text \<open>
  C9, at a submission with difficulty 7 on an empty store: the \<open>/submit-score\<close> handler
  checks only that the three fields are present and not 0. It accepts the request, stores a
  table under the key for difficulty 7 and answers with rank 1.
\<close>

theorem submit_score_accepts_difficulty_7:
  "snd (submit_score (\<lambda>k. None) (Some ''alice'') ''2026-11-02''
          \<lparr>time_r = Some 10, moves_r = Some 5, difficulty_r = Some 7\<rparr>)
     = SubmitScoreResponse 1 ''Score submitted successfully'' \<and>
   fst (submit_score (\<lambda>k. None) (Some ''alice'') ''2026-11-02''
          \<lparr>time_r = Some 10, moves_r = Some 5, difficulty_r = Some 7\<rparr>) (''2026-11-02'', 7)
     = Some [\<lparr>username = ''alice'', time = 10, moves = 5, difficulty = 7,
               date = ''2026-11-02''\<rparr>]"
  by code_simp

end
